theory Spec2Isabelle
  imports Main
begin

section \<open>The elevator simulation (elevator\_sim.cpp)\<close>

text \<open>
  A shallow embedding of the classes \<open>Request\<close>, \<open>Elevator\<close> and \<open>ElevatorSystem\<close>.
  Member functions that mutate the object take the object and return the new one.
  Console and log output are not modelled.

  The C++ type \<open>int\<close> is taken to be 32 bits wide. A value of that type is an integer
  between \<open>INT_MIN\<close> and \<open>INT_MAX\<close>, and \<open>int32\<close> gives the 32-bit two's-complement
  value of an integer. It is applied wherever the source computes a new \<open>int\<close> that can
  leave that range: the conversion \<open>static_cast<int>(targets.size())\<close>, the additions
  to \<open>score\<close>, and the increments of \<open>totalStopsServed\<close>, \<open>totalRequestsProcessed\<close> and
  \<open>currentTime\<close>. For the conversion that is the value C++ defines; for the signed
  additions and increments an overflow is undefined behaviour, and the model takes the
  wrapped value the usual implementations give (no \<open>int\<close> can be larger than \<open>INT_MAX\<close>
  whatever they do). \<open>++currentFloor\<close> and \<open>--currentFloor\<close> are left as they are: the
  first runs only when \<open>currentFloor\<close> is below another \<open>int\<close>, the second only when it is
  above one, so neither can overflow. \<open>distanceToFloor\<close> subtracts two floors; in every
  system a client can bring about both lie between 0 and \<open>numFloors - 1\<close>, so the
  difference and its absolute value are values of \<open>int\<close>.
\<close>

subsection \<open>Data\<close>

datatype Direction = Idle | Up | Down

record Request =
  fromFloor :: int
  toFloor :: int
  timeRequested :: int

record Elevator =
  ident :: int
  currentFloor :: int
  direction :: Direction
  doorOpen :: bool
  targets :: "int list"
  totalStopsServed :: int

record ElevatorSystem =
  numFloors :: int
  elevators :: "Elevator list"
  pendingRequests :: "Request list"
  currentTime :: int
  totalRequestsProcessed :: int

definition INT_MAX :: int where
  "INT_MAX = 2147483647"

definition INT_MIN :: int where
  "INT_MIN = - 2147483648"

definition int32 :: "int \<Rightarrow> int" where
  "int32 x = (x + 2147483648) mod 4294967296 - 2147483648"

subsection \<open>Elevator\<close>

text \<open>The constructor \<open>Elevator(id_, startFloor)\<close>.\<close>

definition Elevator_new :: "int \<Rightarrow> int \<Rightarrow> Elevator" where
  "Elevator_new i startFloor =
     \<lparr>ident = i, currentFloor = startFloor, direction = Idle, doorOpen = False,
      targets = [], totalStopsServed = 0\<rparr>"

text \<open>\<open>getQueueSize\<close>: the size of the deque, converted to \<open>int\<close>.\<close>

definition getQueueSize :: "Elevator \<Rightarrow> int" where
  "getQueueSize e = int32 (int (length (targets e)))"

text \<open>\<open>addTarget\<close>: \<open>targets.back()\<close> is \<open>last\<close>, read only when the queue is not empty.\<close>

definition addTarget :: "int \<Rightarrow> Elevator \<Rightarrow> Elevator" where
  "addTarget f e =
     (if targets e \<noteq> [] \<and> last (targets e) = f then e
      else e\<lparr>targets := targets e @ [f]\<rparr>)"

definition isIdle :: "Elevator \<Rightarrow> bool" where
  "isIdle e = (targets e = [] \<and> \<not> doorOpen e \<and> direction e = Idle)"

definition distanceToFloor :: "Elevator \<Rightarrow> int \<Rightarrow> int" where
  "distanceToFloor e f = \<bar>f - currentFloor e\<bar>"

text \<open>
  \<open>Elevator::step\<close>. \<open>targets.front()\<close> is \<open>hd\<close> and \<open>pop_front\<close> is \<open>tl\<close>; both are
  reached only behind the source's own emptiness tests.
\<close>

definition Elevator_step :: "Elevator \<Rightarrow> Elevator" where
  "Elevator_step e =
     (if doorOpen e then
        (let e1 = e\<lparr>doorOpen := False, totalStopsServed := int32 (totalStopsServed e + 1)\<rparr>;
             e2 = (if targets e1 \<noteq> [] \<and> hd (targets e1) = currentFloor e1
                   then e1\<lparr>targets := tl (targets e1)\<rparr> else e1)
         in if targets e2 = [] then e2\<lparr>direction := Idle\<rparr> else e2)
      else if targets e = [] then e\<lparr>direction := Idle\<rparr>
      else
        (let target = hd (targets e)
         in if currentFloor e < target
              then e\<lparr>currentFloor := currentFloor e + 1, direction := Up\<rparr>
            else if currentFloor e > target
              then e\<lparr>currentFloor := currentFloor e - 1, direction := Down\<rparr>
            else e\<lparr>doorOpen := True\<rparr>))"

subsection \<open>ElevatorSystem\<close>

text \<open>
  The body of the inner loop of \<open>assignRequests\<close>: the score of elevator \<open>e\<close> for the
  request \<open>req\<close>.
\<close>

definition goingSameWay :: "Request \<Rightarrow> Elevator \<Rightarrow> bool" where
  "goingSameWay req e =
     (if direction e = Idle then True
      else if direction e = Up \<and> fromFloor req \<ge> currentFloor e then True
      else if direction e = Down \<and> fromFloor req \<le> currentFloor e then True
      else False)"

definition elevatorScore :: "Request \<Rightarrow> Elevator \<Rightarrow> int" where
  "elevatorScore req e =
     (let dist = distanceToFloor e (fromFloor req);
          score = dist;
          score = (if \<not> goingSameWay req e \<and> direction e \<noteq> Idle then int32 (score + 5)
                   else score)
      in int32 (score + getQueueSize e))"

text \<open>
  The inner loop over the elevators, from index \<open>i\<close> on, carrying
  \<open>(bestIndex, bestScore)\<close>.
\<close>

fun scanElevators :: "Request \<Rightarrow> Elevator list \<Rightarrow> nat \<Rightarrow> int \<times> int \<Rightarrow> int \<times> int" where
  "scanElevators req [] i best = best"
| "scanElevators req (e # es) i (bestIndex, bestScore) =
     (if elevatorScore req e < bestScore
      then scanElevators req es (Suc i) (int i, elevatorScore req e)
      else scanElevators req es (Suc i) (bestIndex, bestScore))"

definition findBest :: "Request \<Rightarrow> Elevator list \<Rightarrow> int" where
  "findBest req elevs = fst (scanElevators req elevs 0 (- 1, INT_MAX))"

text \<open>
  The body of the outer loop: the state is the fleet, the counter
  \<open>totalRequestsProcessed\<close> and the local vector \<open>stillPending\<close>.
\<close>

definition assignOne ::
  "Request \<Rightarrow> Elevator list \<times> int \<times> Request list \<Rightarrow> Elevator list \<times> int \<times> Request list" where
  "assignOne req st =
     (case st of (elevs, processed, stillPending) \<Rightarrow>
        (let bestIndex = findBest req elevs
         in if bestIndex \<noteq> - 1
            then (elevs[nat bestIndex :=
                     addTarget (toFloor req) (addTarget (fromFloor req) (elevs ! nat bestIndex))],
                  int32 (processed + 1), stillPending)
            else (elevs, processed, stillPending @ [req])))"

definition assignRequests :: "ElevatorSystem \<Rightarrow> ElevatorSystem" where
  "assignRequests s =
     (case fold assignOne (pendingRequests s) (elevators s, totalRequestsProcessed s, []) of
        (elevs, processed, stillPending) \<Rightarrow>
          s\<lparr>elevators := elevs, totalRequestsProcessed := processed,
            pendingRequests := stillPending\<rparr>)"

text \<open>The constructor \<open>ElevatorSystem(floors, numElevators)\<close>: every elevator starts at floor 0.\<close>

definition ElevatorSystem_new :: "int \<Rightarrow> int \<Rightarrow> ElevatorSystem" where
  "ElevatorSystem_new floors numElevators =
     \<lparr>numFloors = floors,
      elevators = map (\<lambda>i. Elevator_new (int i) 0) [0 ..< nat numElevators],
      pendingRequests = [],
      currentTime = 0,
      totalRequestsProcessed = 0\<rparr>"

text \<open>
  \<open>addRequest\<close> returns nothing in the source: it prints one of three messages and
  returns. The model returns which of the three it was, with the system after the call:
  \<open>OutOfRange\<close> for "Invalid request. Floors must be between 0 and ...", \<open>SameFloor\<close> for
  "You are already on that floor.", \<open>Added\<close> for "Request added from floor ...".
\<close>

datatype AddResult = OutOfRange | SameFloor | Added

definition addRequest :: "int \<Rightarrow> int \<Rightarrow> ElevatorSystem \<Rightarrow> AddResult \<times> ElevatorSystem" where
  "addRequest from to s =
     (if from < 0 \<or> from \<ge> numFloors s \<or> to < 0 \<or> to \<ge> numFloors s then (OutOfRange, s)
      else if from = to then (SameFloor, s)
      else (Added,
            s\<lparr>pendingRequests := pendingRequests s @
                 [\<lparr>fromFloor = from, toFloor = to, timeRequested = currentTime s\<rparr>]\<rparr>))"

text \<open>\<open>ElevatorSystem::step\<close>: one tick.\<close>

definition ElevatorSystem_step :: "ElevatorSystem \<Rightarrow> ElevatorSystem" where
  "ElevatorSystem_step s =
     (let s1 = s\<lparr>currentTime := int32 (currentTime s + 1)\<rparr>;
          s2 = assignRequests s1
      in s2\<lparr>elevators := map Elevator_step (elevators s2)\<rparr>)"

subsection \<open>Clients of the class\<close>

text \<open>
  A client (the menu loop of \<open>main\<close>) drives a system through its two mutating public
  member functions, \<open>addRequest\<close> and \<open>step\<close>; the command \<open>a\<close> of the menu is five
  calls of \<open>step\<close>. A run is a sequence of such calls.
\<close>

datatype Call = CallAddRequest int int | CallStep

fun perform :: "Call \<Rightarrow> ElevatorSystem \<Rightarrow> ElevatorSystem" where
  "perform (CallAddRequest from to) s = snd (addRequest from to s)"
| "perform CallStep s = ElevatorSystem_step s"

definition run :: "Call list \<Rightarrow> ElevatorSystem \<Rightarrow> ElevatorSystem" where
  "run cs s = fold perform cs s"

subsection \<open>Notions used to state the properties\<close>

text \<open>The fields of an elevator other than its target queue.\<close>

definition sameButTargets :: "Elevator \<Rightarrow> Elevator \<Rightarrow> bool" where
  "sameButTargets e e' =
     (ident e' = ident e \<and> currentFloor e' = currentFloor e \<and> direction e' = direction e \<and>
      doorOpen e' = doorOpen e \<and> totalStopsServed e' = totalStopsServed e)"

text \<open>
  The score as the specification words it: the distance, plus 5 for an elevator that is
  neither idle nor compatible, plus the length of the queue.
\<close>

definition spec_compatible :: "Request \<Rightarrow> Elevator \<Rightarrow> bool" where
  "spec_compatible req e =
     (direction e = Idle \<or>
      (direction e = Up \<and> fromFloor req \<ge> currentFloor e) \<or>
      (direction e = Down \<and> fromFloor req \<le> currentFloor e))"

definition spec_score :: "Request \<Rightarrow> Elevator \<Rightarrow> int" where
  "spec_score req e =
     distanceToFloor e (fromFloor req)
     + (if direction e \<noteq> Idle \<and> \<not> spec_compatible req e then 5 else 0)
     + int (length (targets e))"

text \<open>What an assignment does to the fleet: pickup floor first, then destination.\<close>

definition pushRequest :: "Request \<Rightarrow> Elevator list \<Rightarrow> Elevator list" where
  "pushRequest req elevs =
     elevs[nat (findBest req elevs) :=
       addTarget (toFloor req) (addTarget (fromFloor req) (elevs ! nat (findBest req elevs)))]"

text \<open>
  An elevator has room below \<open>INT_MAX\<close> for a backlog when its score for each of the
  requests stays below \<open>INT_MAX\<close> even with the penalty and with two more targets for
  every request of the backlog.
\<close>

definition scoreRoom :: "Request list \<Rightarrow> Elevator \<Rightarrow> bool" where
  "scoreRoom reqs e =
     list_all (\<lambda>r. distanceToFloor e (fromFloor r) + 5 + int (length (targets e))
                      + 2 * int (length reqs) < INT_MAX) reqs"

text \<open>
  The indices of the elevators that the loop over the backlog chooses, in the order of
  the requests; a request for which no elevator is chosen contributes none.
\<close>

fun chosenIndices :: "Request list \<Rightarrow> Elevator list \<Rightarrow> nat list" where
  "chosenIndices [] elevs = []"
| "chosenIndices (req # reqs) elevs =
     (if findBest req elevs \<noteq> - 1
      then nat (findBest req elevs) # chosenIndices reqs (pushRequest req elevs)
      else chosenIndices reqs elevs)"

text \<open>All floors of a system lie in \<open>[0, nf - 1]\<close>.\<close>

definition floorOk :: "int \<Rightarrow> int \<Rightarrow> bool" where
  "floorOk nf f = (0 \<le> f \<and> f \<le> nf - 1)"

definition elevatorOk :: "int \<Rightarrow> Elevator \<Rightarrow> bool" where
  "elevatorOk nf e = (floorOk nf (currentFloor e) \<and> list_all (floorOk nf) (targets e))"

definition requestOk :: "int \<Rightarrow> Request \<Rightarrow> bool" where
  "requestOk nf r = (floorOk nf (fromFloor r) \<and> floorOk nf (toFloor r))"

definition systemOk :: "int \<Rightarrow> ElevatorSystem \<Rightarrow> bool" where
  "systemOk nf s =
     (numFloors s = nf \<and> list_all (elevatorOk nf) (elevators s) \<and>
      list_all (requestOk nf) (pendingRequests s))"

subsection \<open>Concrete systems\<close>

text \<open>One elevator, ten floors, a request whose pickup floor is where the elevator stands.\<close>

definition pickupHere :: ElevatorSystem where
  "pickupHere = snd (addRequest 0 3 (ElevatorSystem_new 10 1))"

text \<open>Two elevators, ten floors, the request (5, 8).\<close>

definition greedyScenario :: ElevatorSystem where
  "greedyScenario = snd (addRequest 5 8 (ElevatorSystem_new 10 2))"

text \<open>
  A system whose only elevator holds \<open>INT_MAX\<close> targets, with a pending request from
  the floor where it stands. It is the system a client reaches from a new one by
  \<open>loadingCalls\<close>: the request (0, 3), two ticks (the door opens and closes at floor 0),
  1073741823 more requests (0, 3), one tick (all are assigned and the elevator moves to
  floor 1), and the request (1, 3).
\<close>

definition loadingCalls :: "Call list" where
  "loadingCalls =
     [CallAddRequest 0 3, CallStep, CallStep] @ replicate 1073741823 (CallAddRequest 0 3) @
     [CallStep, CallAddRequest 1 3]"

text \<open>The queue that \<open>n\<close> requests (0, 3) in a row leave behind.\<close>

definition shuttle :: "nat \<Rightarrow> int list" where
  "shuttle n = concat (replicate n [0, 3])"

definition waitingAt :: "int list \<Rightarrow> Elevator" where
  "waitingAt q =
     \<lparr>ident = 0, currentFloor = 0, direction = Idle, doorOpen = False, targets = q,
      totalStopsServed = 1\<rparr>"

definition zeroToThree :: Request where
  "zeroToThree = \<lparr>fromFloor = 0, toFloor = 3, timeRequested = 2\<rparr>"

definition longQueue :: "int list" where
  "longQueue = 3 # concat (replicate 1073741823 [0, 3])"

definition loadedElevator :: Elevator where
  "loadedElevator =
     \<lparr>ident = 0, currentFloor = 1, direction = Up, doorOpen = False,
      targets = longQueue, totalStopsServed = 1\<rparr>"

definition pickupAtOne :: Request where
  "pickupAtOne = \<lparr>fromFloor = 1, toFloor = 3, timeRequested = 3\<rparr>"

definition loadedSystem :: ElevatorSystem where
  "loadedSystem =
     \<lparr>numFloors = 10, elevators = [loadedElevator], pendingRequests = [pickupAtOne],
      currentTime = 3, totalRequestsProcessed = 1073741824\<rparr>"

text \<open>
  A burst of requests (0, 3) on a new system, dispatched by one tick: \<open>INT_MAX\<close> of them
  on one elevator bring \<open>totalRequestsProcessed\<close> to \<open>INT_MAX\<close>.
\<close>

definition fromGround :: Request where
  "fromGround = \<lparr>fromFloor = 0, toFloor = 3, timeRequested = 0\<rparr>"

definition parked :: "int \<Rightarrow> int list \<Rightarrow> Elevator" where
  "parked i q =
     \<lparr>ident = i, currentFloor = 0, direction = Idle, doorOpen = False, targets = q,
      totalStopsServed = 0\<rparr>"

definition overflowCalls :: "Call list" where
  "overflowCalls = replicate 2147483647 (CallAddRequest 0 3) @ [CallStep]"

definition burstDone :: ElevatorSystem where
  "burstDone =
     \<lparr>numFloors = 10,
      elevators = [(parked 0 (shuttle 2147483647))\<lparr>doorOpen := True\<rparr>],
      pendingRequests = [], currentTime = 1, totalRequestsProcessed = 2147483647\<rparr>"

text \<open>
  The same burst on two elevators fills both queues in turn. After 2147483647 requests
  elevator 0 holds \<open>INT_MAX + 1\<close> targets and elevator 1 holds \<open>INT_MAX - 1\<close>.
\<close>

definition doubleBurst :: "Call list" where
  "doubleBurst = replicate 2147483648 (CallAddRequest 0 3)"

definition unevenFleet :: "Elevator list" where
  "unevenFleet = [parked 0 (shuttle 1073741824), parked 1 (shuttle 1073741823)]"

text \<open>
  One elevator carried between floors 0 and 1: a trip up and a trip down serve four stops
  and leave the elevator at rest at floor 0. After 536870911 round trips, one more trip up
  and a request back down, the elevator stands at floor 0 with its door open and
  \<open>INT_MAX\<close> stops served.
\<close>

definition restAt :: "int \<Rightarrow> int \<Rightarrow> int \<Rightarrow> int \<Rightarrow> ElevatorSystem" where
  "restAt f k p t =
     \<lparr>numFloors = 10,
      elevators = [\<lparr>ident = 0, currentFloor = f, direction = Idle, doorOpen = False,
                    targets = [], totalStopsServed = k\<rparr>],
      pendingRequests = [], currentTime = t, totalRequestsProcessed = p\<rparr>"

definition upTrip :: "Call list" where
  "upTrip = [CallAddRequest 0 1, CallStep, CallStep, CallStep, CallStep, CallStep]"

definition downTrip :: "Call list" where
  "downTrip = [CallAddRequest 1 0, CallStep, CallStep, CallStep, CallStep, CallStep]"

definition stopCalls :: "Call list" where
  "stopCalls =
     concat (replicate 536870911 (upTrip @ downTrip)) @ upTrip @
     [CallAddRequest 1 0, CallStep, CallStep, CallStep, CallStep]"

definition lastStop :: ElevatorSystem where
  "lastStop =
     \<lparr>numFloors = 10,
      elevators = [\<lparr>ident = 0, currentFloor = 0, direction = Down, doorOpen = True,
                    targets = [0], totalStopsServed = 2147483647\<rparr>],
      pendingRequests = [], currentTime = int32 5368709119,
      totalRequestsProcessed = 1073741824\<rparr>"

text \<open>
  The states the two-elevator scenario passes through: elevator 0 travelling up with the
  given floor, door, queue and stop count at time \<open>t\<close>, elevator 1 untouched.
\<close>

definition greedyAfter :: "int \<Rightarrow> int \<Rightarrow> bool \<Rightarrow> int list \<Rightarrow> int \<Rightarrow> ElevatorSystem" where
  "greedyAfter t f d q n =
     \<lparr>numFloors = 10,
      elevators =
        [\<lparr>ident = 0, currentFloor = f, direction = Up, doorOpen = d, targets = q,
          totalStopsServed = n\<rparr>,
         \<lparr>ident = 1, currentFloor = 0, direction = Idle, doorOpen = False, targets = [],
          totalStopsServed = 0\<rparr>],
      pendingRequests = [], currentTime = t, totalRequestsProcessed = 1\<rparr>"

text \<open>An elevator that has just reached floor 5, the front of its queue.\<close>

definition arrivedAtFive :: Elevator where
  "arrivedAtFive =
     \<lparr>ident = 0, currentFloor = 5, direction = Up, doorOpen = False, targets = [5, 8],
      totalStopsServed = 0\<rparr>"

text \<open>
  Elevator 0 travels up at floor 2 with the queue [10], elevator 1 is idle at floor 2;
  a request comes from floor 1.
\<close>

definition penaltyFleet :: "Elevator list" where
  "penaltyFleet =
     [\<lparr>ident = 0, currentFloor = 2, direction = Up, doorOpen = False, targets = [10],
       totalStopsServed = 0\<rparr>,
      \<lparr>ident = 1, currentFloor = 2, direction = Idle, doorOpen = False, targets = [],
       totalStopsServed = 0\<rparr>]"

definition fromFloorOne :: Request where
  "fromFloorOne = \<lparr>fromFloor = 1, toFloor = 4, timeRequested = 0\<rparr>"

text \<open>A queue that never holds the same floor twice in a row.\<close>

definition noRepeat :: "Elevator \<Rightarrow> bool" where
  "noRepeat e = distinct_adj (targets e)"

section \<open>Auxiliary facts\<close>

subsection \<open>32-bit values\<close>

lemma int32_id: "INT_MIN \<le> x \<Longrightarrow> x \<le> INT_MAX \<Longrightarrow> int32 x = x"
  by (simp add: int32_def INT_MIN_def INT_MAX_def)

lemma int32_le: "int32 x \<le> INT_MAX"
  by (simp add: int32_def INT_MAX_def)

lemma int32_ge: "INT_MIN \<le> int32 x"
  by (simp add: int32_def INT_MIN_def)

lemma int32_idem: "int32 (int32 x) = int32 x"
  by (simp add: int32_id int32_le int32_ge)

lemma int32_add_left: "int32 (int32 x + y) = int32 (x + y)"
proof -
  have a: "int32 x + y + 2147483648 = (x + 2147483648) mod 4294967296 + y"
    by (simp add: int32_def)
  have b: "((x + 2147483648) mod 4294967296 + y) mod 4294967296 =
      (x + 2147483648 + y) mod 4294967296"
    by (rule mod_add_left_eq)
  have c: "x + 2147483648 + y = x + y + 2147483648" by simp
  have "(int32 x + y + 2147483648) mod 4294967296 = (x + y + 2147483648) mod 4294967296"
    unfolding a b c ..
  then show ?thesis
    by (simp only: int32_def [of "int32 x + y"] int32_def [of "x + y"])
qed

lemma int32_even: "even x \<Longrightarrow> int32 x < INT_MAX"
proof -
  assume e: "even x"
  have "(2::int) dvd 4294967296" by simp
  then have "even ((x + 2147483648) mod 4294967296)"
    using e by (simp add: dvd_mod_iff)
  then have "even (int32 x)" by (simp add: int32_def)
  then have "int32 x \<noteq> INT_MAX" by (auto simp: INT_MAX_def)
  then show ?thesis using int32_le[of x] by simp
qed

lemma le_int32_succ: "x < INT_MAX \<Longrightarrow> x \<le> int32 (x + 1)"
proof (cases "INT_MIN \<le> x + 1")
  case True
  assume "x < INT_MAX"
  then show ?thesis using True by (simp add: int32_id)
next
  case False
  then show ?thesis using int32_ge[of "x + 1"] by simp
qed

lemma int32_INT_MAX_succ: "int32 (INT_MAX + 1) = INT_MIN"
  by (simp add: int32_def INT_MAX_def INT_MIN_def)

lemma int32_add_right: "int32 (y + int32 x) = int32 (y + x)"
  using int32_add_left[of x y] by (simp add: add.commute)

lemmas int32_adds = int32_add_left int32_add_right add.commute

lemma int32_0: "int32 0 = 0"
  by (simp add: int32_def)

subsection \<open>Evaluation of the concrete systems\<close>

lemmas eval_defs = ElevatorSystem_new_def addRequest_def Elevator_new_def ElevatorSystem_step_def
  assignRequests_def assignOne_def findBest_def elevatorScore_def goingSameWay_def
  distanceToFloor_def getQueueSize_def INT_MAX_def addTarget_def Elevator_step_def Let_def
  int32_def

lemma new_10_2:
  "ElevatorSystem_new 10 2 =
     \<lparr>numFloors = 10,
      elevators =
        [\<lparr>ident = 0, currentFloor = 0, direction = Idle, doorOpen = False, targets = [],
          totalStopsServed = 0\<rparr>,
         \<lparr>ident = 1, currentFloor = 0, direction = Idle, doorOpen = False, targets = [],
          totalStopsServed = 0\<rparr>],
      pendingRequests = [], currentTime = 0, totalRequestsProcessed = 0\<rparr>"
  by (simp add: ElevatorSystem_new_def Elevator_new_def upt_rec)

lemma greedyScenario_eq:
  "greedyScenario =
     \<lparr>numFloors = 10,
      elevators =
        [\<lparr>ident = 0, currentFloor = 0, direction = Idle, doorOpen = False, targets = [],
          totalStopsServed = 0\<rparr>,
         \<lparr>ident = 1, currentFloor = 0, direction = Idle, doorOpen = False, targets = [],
          totalStopsServed = 0\<rparr>],
      pendingRequests = [\<lparr>fromFloor = 5, toFloor = 8, timeRequested = 0\<rparr>],
      currentTime = 0, totalRequestsProcessed = 0\<rparr>"
  by (simp add: greedyScenario_def new_10_2 addRequest_def)

lemma step_pickupHere:
  "ElevatorSystem_step pickupHere =
     \<lparr>numFloors = 10,
      elevators = [\<lparr>ident = 0, currentFloor = 0, direction = Idle, doorOpen = True,
                    targets = [0, 3], totalStopsServed = 0\<rparr>],
      pendingRequests = [], currentTime = 1, totalRequestsProcessed = 1\<rparr>"
  by (simp add: pickupHere_def eval_defs)

lemma step_new_10_1:
  "ElevatorSystem_step (ElevatorSystem_new 10 1) =
     \<lparr>numFloors = 10,
      elevators = [\<lparr>ident = 0, currentFloor = 0, direction = Idle, doorOpen = False,
                    targets = [], totalStopsServed = 0\<rparr>],
      pendingRequests = [], currentTime = 1, totalRequestsProcessed = 0\<rparr>"
  by (simp add: eval_defs)

lemma greedy_tick1: "ElevatorSystem_step greedyScenario = greedyAfter 1 1 False [5, 8] 0"
  by (simp add: greedyScenario_eq greedyAfter_def) (simp add: eval_defs)

lemma greedy_move:
  "f < 5 \<Longrightarrow>
   ElevatorSystem_step (greedyAfter t f False [5, 8] 0) =
     greedyAfter (int32 (t + 1)) (f + 1) False [5, 8] 0"
  by (simp add: greedyAfter_def eval_defs)

lemma greedy_open:
  "ElevatorSystem_step (greedyAfter t 5 False [5, 8] 0) =
     greedyAfter (int32 (t + 1)) 5 True [5, 8] 0"
  by (simp add: greedyAfter_def eval_defs)

lemma greedy_close:
  "ElevatorSystem_step (greedyAfter t 5 True [5, 8] 0) =
     greedyAfter (int32 (t + 1)) 5 False [8] 1"
  by (simp add: greedyAfter_def eval_defs)

lemma greedy_tick5:
  "(ElevatorSystem_step ^^ 4) (ElevatorSystem_step greedyScenario) = greedyAfter 5 5 False [5, 8] 0"
  by (simp add: numeral_eq_Suc greedy_tick1 greedy_move int32_def)

lemma greedy_tick6:
  "(ElevatorSystem_step ^^ 5) (ElevatorSystem_step greedyScenario) = greedyAfter 6 5 True [5, 8] 0"
  by (simp add: numeral_eq_Suc greedy_tick1 greedy_move greedy_open int32_def)

lemma length_longQueue: "length longQueue = 2147483647"
  by (simp add: longQueue_def length_concat sum_list_replicate)

lemma loadedElevator_score: "elevatorScore pickupAtOne loadedElevator = INT_MAX"
  by (simp add: elevatorScore_def loadedElevator_def pickupAtOne_def goingSameWay_def
      distanceToFloor_def getQueueSize_def length_longQueue INT_MAX_def int32_def)

lemma loadedElevator_not_found: "findBest pickupAtOne [loadedElevator] = - 1"
  by (simp add: findBest_def loadedElevator_score)

lemma assign_greedyScenario:
  "assignRequests greedyScenario =
     \<lparr>numFloors = 10,
      elevators =
        [\<lparr>ident = 0, currentFloor = 0, direction = Idle, doorOpen = False, targets = [5, 8],
          totalStopsServed = 0\<rparr>,
         \<lparr>ident = 1, currentFloor = 0, direction = Idle, doorOpen = False, targets = [],
          totalStopsServed = 0\<rparr>],
      pendingRequests = [], currentTime = 0, totalRequestsProcessed = 1\<rparr>"
  by (simp add: greedyScenario_eq) (simp add: eval_defs)

lemmas sym_defs = addRequest_def ElevatorSystem_step_def
  assignRequests_def assignOne_def findBest_def elevatorScore_def goingSameWay_def
  distanceToFloor_def getQueueSize_def INT_MAX_def addTarget_def Elevator_step_def Let_def

subsection \<open>What an assignment leaves alone\<close>

lemma sameButTargets_refl: "sameButTargets e e"
  by (simp add: sameButTargets_def)

lemma sameButTargets_addTarget: "sameButTargets e e' \<Longrightarrow> sameButTargets e (addTarget f e')"
  by (simp add: sameButTargets_def addTarget_def)

lemma assignOne_sameButTargets:
  assumes "list_all2 sameButTargets es0 es" "assignOne req (es, p, sp) = (es', p', sp')"
  shows "list_all2 sameButTargets es0 es'"
proof (cases "findBest req es \<noteq> - 1 \<and> nat (findBest req es) < length es")
  case True
  let ?i = "nat (findBest req es)"
  have "sameButTargets (es0 ! ?i) (es ! ?i)"
    using assms(1) True by (simp add: list_all2_nthD2)
  then have "sameButTargets (es0 ! ?i)
      (addTarget (toFloor req) (addTarget (fromFloor req) (es ! ?i)))"
    by (intro sameButTargets_addTarget)
  then have "list_all2 sameButTargets (es0[?i := es0 ! ?i])
      (es[?i := addTarget (toFloor req) (addTarget (fromFloor req) (es ! ?i))])"
    using assms(1) by (intro list_all2_update_cong)
  then show ?thesis using assms(2) True by (simp add: assignOne_def Let_def)
next
  case False
  then have "es' = es"
    using assms(2) by (auto simp: assignOne_def Let_def list_update_beyond split: if_splits)
  then show ?thesis using assms(1) by simp
qed

lemma fold_assignOne_sameButTargets:
  "list_all2 sameButTargets es0 es \<Longrightarrow> fold assignOne reqs (es, p, sp) = (es', p', sp')
    \<Longrightarrow> list_all2 sameButTargets es0 es'"
proof (induction reqs arbitrary: es p sp)
  case Nil
  then show ?case by simp
next
  case (Cons r rs)
  obtain es1 p1 sp1 where one: "assignOne r (es, p, sp) = (es1, p1, sp1)"
    by (cases "assignOne r (es, p, sp)") auto
  have "list_all2 sameButTargets es0 es1"
    using assignOne_sameButTargets[OF Cons.prems(1) one] .
  then show ?case using Cons.IH[of es1 p1 sp1] Cons.prems(2) one by simp
qed

lemma assignRequests_sameButTargets:
  "numFloors (assignRequests s) = numFloors s \<and> currentTime (assignRequests s) = currentTime s \<and>
   list_all2 sameButTargets (elevators s) (elevators (assignRequests s))"
proof -
  obtain es p sp where f:
    "fold assignOne (pendingRequests s) (elevators s, totalRequestsProcessed s, []) = (es, p, sp)"
    by (cases "fold assignOne (pendingRequests s) (elevators s, totalRequestsProcessed s, [])")
      auto
  have "list_all2 sameButTargets (elevators s) es"
    using fold_assignOne_sameButTargets[OF _ f] by (simp add: list_all2_refl sameButTargets_refl)
  then show ?thesis using f by (simp add: assignRequests_def)
qed

lemma assignOne_assigned:
  "findBest req es \<noteq> - 1 \<Longrightarrow>
   assignOne req (es, p, sp) = (pushRequest req es, int32 (p + 1), sp)"
  by (simp add: assignOne_def pushRequest_def Let_def)

lemma assignOne_pending:
  "findBest req es = - 1 \<Longrightarrow> assignOne req (es, p, sp) = (es, p, sp @ [req])"
  by (simp add: assignOne_def Let_def)

lemma addTarget_appends: "\<exists>ys. targets (addTarget f e) = targets e @ ys"
  by (simp add: addTarget_def)

lemma pushRequest_length: "length (pushRequest r es) = length es"
  by (simp add: pushRequest_def)

lemma pushRequest_appends:
  "i < length es \<Longrightarrow> \<exists>ys. targets (pushRequest r es ! i) = targets (es ! i) @ ys"
proof (cases "i = nat (findBest r es)")
  case True
  assume i: "i < length es"
  obtain ys where a: "targets (addTarget (fromFloor r) (es ! i)) = targets (es ! i) @ ys"
    using addTarget_appends by blast
  obtain zs where b: "targets (addTarget (toFloor r) (addTarget (fromFloor r) (es ! i))) =
      targets (addTarget (fromFloor r) (es ! i)) @ zs"
    using addTarget_appends by blast
  have "targets (pushRequest r es ! i) = targets (es ! i) @ (ys @ zs)"
    using True i a b by (simp add: pushRequest_def)
  then show ?thesis by blast
next
  case False
  then show ?thesis by (simp add: pushRequest_def)
qed

lemma pushRequest_other: "i \<noteq> nat (findBest r es) \<Longrightarrow> pushRequest r es ! i = es ! i"
  by (simp add: pushRequest_def)

lemma fold_assignOne_queues:
  "fold assignOne reqs (es, p, sp) = (es', p', sp') \<Longrightarrow>
   length es' = length es \<and>
   (\<forall>i < length es.
      (\<exists>ys. targets (es' ! i) = targets (es ! i) @ ys) \<and>
      (i \<notin> set (chosenIndices reqs es) \<longrightarrow> es' ! i = es ! i))"
proof (induction reqs arbitrary: es p sp)
  case Nil
  then show ?case by simp
next
  case (Cons r rs)
  show ?case
  proof (cases "findBest r es = - 1")
    case True
    then have "fold assignOne rs (es, p, sp @ [r]) = (es', p', sp')"
      using Cons.prems by (simp add: assignOne_pending)
    then show ?thesis using Cons.IH[of es p "sp @ [r]"] True by simp
  next
    case False
    let ?es1 = "pushRequest r es"
    have f: "fold assignOne rs (?es1, int32 (p + 1), sp) = (es', p', sp')"
      using Cons.prems False by (simp add: assignOne_assigned)
    note ih = Cons.IH[OF f]
    have len: "length es' = length es" using ih by (simp add: pushRequest_length)
    have "\<forall>i < length es.
      (\<exists>ys. targets (es' ! i) = targets (es ! i) @ ys) \<and>
      (i \<notin> set (chosenIndices (r # rs) es) \<longrightarrow> es' ! i = es ! i)"
    proof (intro allI impI conjI)
      fix i assume i: "i < length es"
      then have i1: "i < length ?es1" by (simp add: pushRequest_length)
      obtain ys where a: "targets (?es1 ! i) = targets (es ! i) @ ys"
        using pushRequest_appends[OF i] by blast
      obtain zs where b: "targets (es' ! i) = targets (?es1 ! i) @ zs"
        using ih i1 by blast
      have "targets (es' ! i) = targets (es ! i) @ (ys @ zs)" using a b by simp
      then show "\<exists>ys. targets (es' ! i) = targets (es ! i) @ ys" by blast
    next
      fix i assume i: "i < length es" and n: "i \<notin> set (chosenIndices (r # rs) es)"
      then have i1: "i < length ?es1" by (simp add: pushRequest_length)
      have "i \<noteq> nat (findBest r es)" and "i \<notin> set (chosenIndices rs ?es1)"
        using n False by simp_all
      then show "es' ! i = es ! i"
        using ih i1 by (simp add: pushRequest_other)
    qed
    then show ?thesis using len by simp
  qed
qed

lemma assignRequests_queues:
  "length (elevators (assignRequests s)) = length (elevators s) \<and>
   (\<forall>i < length (elevators s).
      (\<exists>ys. targets (elevators (assignRequests s) ! i) = targets (elevators s ! i) @ ys) \<and>
      (i \<notin> set (chosenIndices (pendingRequests s) (elevators s)) \<longrightarrow>
         elevators (assignRequests s) ! i = elevators s ! i))"
proof -
  obtain es p sp where f:
    "fold assignOne (pendingRequests s) (elevators s, totalRequestsProcessed s, []) = (es, p, sp)"
    by (cases "fold assignOne (pendingRequests s) (elevators s, totalRequestsProcessed s, [])")
      auto
  have "elevators (assignRequests s) = es" using f by (simp add: assignRequests_def)
  then show ?thesis using fold_assignOne_queues[OF f] by simp
qed

lemma chosen_greedyScenario:
  "chosenIndices (pendingRequests greedyScenario) (elevators greedyScenario) = [0]"
  by (simp add: greedyScenario_eq) (simp add: eval_defs)

subsection \<open>The counters\<close>

lemma Elevator_step_stops:
  "(doorOpen e \<longrightarrow> totalStopsServed e < INT_MAX) \<Longrightarrow>
   totalStopsServed e \<le> totalStopsServed (Elevator_step e)"
  by (auto simp: Elevator_step_def Let_def le_int32_succ)

lemma fold_assignOne_stillPending:
  "fold assignOne reqs (es, p, sp) = (es', p', sp') \<Longrightarrow>
   length sp \<le> length sp' \<and> length sp' \<le> length sp + length reqs"
proof (induction reqs arbitrary: es p sp)
  case Nil
  then show ?case by simp
next
  case (Cons r rs)
  show ?case
  proof (cases "findBest r es = - 1")
    case True
    then have "fold assignOne rs (es, p, sp @ [r]) = (es', p', sp')"
      using Cons.prems by (simp add: assignOne_pending)
    then show ?thesis using Cons.IH[of es p "sp @ [r]"] by simp
  next
    case False
    then have "fold assignOne rs (pushRequest r es, int32 (p + 1), sp) = (es', p', sp')"
      using Cons.prems by (simp add: assignOne_assigned)
    then show ?thesis using Cons.IH[of "pushRequest r es" "int32 (p + 1)" sp] by simp
  qed
qed

lemma fold_assignOne_processed:
  "fold assignOne reqs (es, p, sp) = (es', p', sp') \<Longrightarrow> p0 \<le> p \<Longrightarrow>
   (INT_MIN \<le> p0 \<longrightarrow> p + (int (length reqs) + int (length sp) - int (length sp')) \<le> INT_MAX) \<Longrightarrow>
   p0 \<le> p'"
proof (induction reqs arbitrary: es p sp)
  case Nil
  then show ?case by simp
next
  case (Cons r rs)
  show ?case
  proof (cases "findBest r es = - 1")
    case True
    then have f: "fold assignOne rs (es, p, sp @ [r]) = (es', p', sp')"
      using Cons.prems(1) by (simp add: assignOne_pending)
    have "INT_MIN \<le> p0 \<longrightarrow>
        p + (int (length rs) + int (length (sp @ [r])) - int (length sp')) \<le> INT_MAX"
      using Cons.prems(3) by (simp add: algebra_simps)
    then show ?thesis by (rule Cons.IH[OF f Cons.prems(2)])
  next
    case False
    then have f: "fold assignOne rs (pushRequest r es, int32 (p + 1), sp) = (es', p', sp')"
      using Cons.prems(1) by (simp add: assignOne_assigned)
    have rest: "int (length sp') \<le> int (length sp) + int (length rs)"
      using fold_assignOne_stillPending[OF f] by simp
    show ?thesis
    proof (cases "INT_MIN \<le> p0")
      case True
      then have bound: "p + 1 + (int (length rs) + int (length sp) - int (length sp')) \<le> INT_MAX"
        using Cons.prems(3) by simp
      then have "p + 1 \<le> INT_MAX" using rest by simp
      moreover have "INT_MIN \<le> p + 1" using True Cons.prems(2) by simp
      ultimately have eq: "int32 (p + 1) = p + 1" by (simp add: int32_id)
      have "p0 \<le> int32 (p + 1)" using eq Cons.prems(2) by simp
      moreover have "INT_MIN \<le> p0 \<longrightarrow>
          int32 (p + 1) + (int (length rs) + int (length sp) - int (length sp')) \<le> INT_MAX"
        using bound eq by simp
      ultimately show ?thesis by (rule Cons.IH[OF f])
    next
      case False
      then have "p0 \<le> int32 (p + 1)" using int32_ge[of "p + 1"] by simp
      moreover have "INT_MIN \<le> p0 \<longrightarrow>
          int32 (p + 1) + (int (length rs) + int (length sp) - int (length sp')) \<le> INT_MAX"
        using False by simp
      ultimately show ?thesis by (rule Cons.IH[OF f])
    qed
  qed
qed

lemma assignRequests_processed:
  assumes "totalRequestsProcessed s +
      (int (length (pendingRequests s)) - int (length (pendingRequests (assignRequests s)))) \<le> INT_MAX"
  shows "totalRequestsProcessed s \<le> totalRequestsProcessed (assignRequests s)"
proof -
  obtain es p sp where f:
    "fold assignOne (pendingRequests s) (elevators s, totalRequestsProcessed s, []) = (es, p, sp)"
    by (cases "fold assignOne (pendingRequests s) (elevators s, totalRequestsProcessed s, [])")
      auto
  have sp: "pendingRequests (assignRequests s) = sp" and p: "totalRequestsProcessed (assignRequests s) = p"
    using f by (simp_all add: assignRequests_def)
  have "totalRequestsProcessed s \<le> p"
    using assms unfolding sp
    by (intro fold_assignOne_processed[OF f]) simp_all
  then show ?thesis using p by simp
qed

lemma assignRequests_time_irrelevant:
  "pendingRequests (assignRequests (s\<lparr>currentTime := t\<rparr>)) = pendingRequests (assignRequests s) \<and>
   elevators (assignRequests (s\<lparr>currentTime := t\<rparr>)) = elevators (assignRequests s) \<and>
   totalRequestsProcessed (assignRequests (s\<lparr>currentTime := t\<rparr>)) =
     totalRequestsProcessed (assignRequests s)"
  by (simp add: assignRequests_def split: prod.splits)

lemma step_pending: "pendingRequests (ElevatorSystem_step s) = pendingRequests (assignRequests s)"
  by (simp add: ElevatorSystem_step_def Let_def assignRequests_time_irrelevant)

lemma step_processed:
  "totalRequestsProcessed (ElevatorSystem_step s) = totalRequestsProcessed (assignRequests s)"
  by (simp add: ElevatorSystem_step_def Let_def assignRequests_time_irrelevant)

lemma step_elevators:
  "elevators (ElevatorSystem_step s) = map Elevator_step (elevators (assignRequests s))"
  by (simp add: ElevatorSystem_step_def Let_def assignRequests_time_irrelevant)

subsection \<open>Floors stay in range\<close>

lemma addTarget_ok: "elevatorOk nf e \<Longrightarrow> floorOk nf f \<Longrightarrow> elevatorOk nf (addTarget f e)"
  by (simp add: elevatorOk_def addTarget_def)

lemma Elevator_step_ok:
  assumes "elevatorOk nf e"
  shows "elevatorOk nf (Elevator_step e)"
proof (cases "targets e")
  case Nil
  then show ?thesis using assms by (simp add: Elevator_step_def elevatorOk_def Let_def)
next
  case (Cons t ts)
  then have "floorOk nf t" "list_all (floorOk nf) ts" "floorOk nf (currentFloor e)"
    using assms by (simp_all add: elevatorOk_def)
  then show ?thesis using Cons
    by (auto simp: Elevator_step_def elevatorOk_def Let_def floorOk_def)
qed

lemma list_all_update: "list_all P xs \<Longrightarrow> P x \<Longrightarrow> list_all P (xs[i := x])"
  by (induction xs arbitrary: i) (auto split: nat.splits)

lemma assignOne_ok:
  assumes "list_all (elevatorOk nf) es" "requestOk nf r" "list_all (requestOk nf) sp"
    and "assignOne r (es, p, sp) = (es', p', sp')"
  shows "list_all (elevatorOk nf) es' \<and> list_all (requestOk nf) sp'"
proof (cases "findBest r es \<noteq> - 1")
  case True
  let ?i = "nat (findBest r es)"
  have es': "es' = es[?i := addTarget (toFloor r) (addTarget (fromFloor r) (es ! ?i))]"
    and sp': "sp' = sp"
    using assms(4) True by (simp_all add: assignOne_def Let_def)
  show ?thesis
  proof (cases "?i < length es")
    case True
    then have "elevatorOk nf (es ! ?i)" using assms(1) by (simp add: list_all_length)
    then have "elevatorOk nf (addTarget (toFloor r) (addTarget (fromFloor r) (es ! ?i)))"
      using assms(2) by (simp add: addTarget_ok requestOk_def)
    then show ?thesis using es' sp' assms(1,3) by (simp add: list_all_update)
  next
    case False
    then show ?thesis using es' sp' assms(1,3) by (simp add: list_update_beyond)
  qed
next
  case False
  then show ?thesis using assms by (auto simp: assignOne_def Let_def)
qed

lemma fold_assignOne_ok:
  "list_all (elevatorOk nf) es \<Longrightarrow> list_all (requestOk nf) reqs \<Longrightarrow> list_all (requestOk nf) sp
    \<Longrightarrow> fold assignOne reqs (es, p, sp) = (es', p', sp')
    \<Longrightarrow> list_all (elevatorOk nf) es' \<and> list_all (requestOk nf) sp'"
proof (induction reqs arbitrary: es p sp)
  case Nil
  then show ?case by simp
next
  case (Cons r rs)
  obtain es1 p1 sp1 where one: "assignOne r (es, p, sp) = (es1, p1, sp1)"
    by (cases "assignOne r (es, p, sp)") auto
  have r: "requestOk nf r" and rs: "list_all (requestOk nf) rs" using Cons.prems(2) by simp_all
  have ok1: "list_all (elevatorOk nf) es1 \<and> list_all (requestOk nf) sp1"
    using assignOne_ok[OF Cons.prems(1) r Cons.prems(3) one] .
  have "fold assignOne rs (es1, p1, sp1) = (es', p', sp')" using Cons.prems(4) one by simp
  then show ?case using Cons.IH[of es1 sp1 p1] ok1 rs by simp
qed

lemma assignRequests_ok: "systemOk nf s \<Longrightarrow> systemOk nf (assignRequests s)"
proof -
  assume ok: "systemOk nf s"
  obtain es p sp where f:
    "fold assignOne (pendingRequests s) (elevators s, totalRequestsProcessed s, []) = (es, p, sp)"
    by (cases "fold assignOne (pendingRequests s) (elevators s, totalRequestsProcessed s, [])")
      auto
  have "list_all (elevatorOk nf) es \<and> list_all (requestOk nf) sp"
    using fold_assignOne_ok[OF _ _ _ f, of nf] ok by (simp add: systemOk_def)
  then show ?thesis using f ok by (simp add: assignRequests_def systemOk_def)
qed

lemma ElevatorSystem_step_ok: "systemOk nf s \<Longrightarrow> systemOk nf (ElevatorSystem_step s)"
proof -
  assume ok: "systemOk nf s"
  let ?s1 = "s\<lparr>currentTime := int32 (currentTime s + 1)\<rparr>"
  have "systemOk nf ?s1" using ok by (simp add: systemOk_def)
  then have "systemOk nf (assignRequests ?s1)" by (rule assignRequests_ok)
  then show ?thesis
    by (simp add: ElevatorSystem_step_def Let_def systemOk_def list_all_iff Elevator_step_ok)
qed

lemma addRequest_ok: "systemOk nf s \<Longrightarrow> systemOk nf (snd (addRequest from to s))"
  by (auto simp: addRequest_def systemOk_def requestOk_def floorOk_def)

lemma perform_ok: "systemOk nf s \<Longrightarrow> systemOk nf (perform c s)"
  by (cases c) (simp_all add: addRequest_ok ElevatorSystem_step_ok)

lemma run_ok: "systemOk nf s \<Longrightarrow> systemOk nf (run cs s)"
  unfolding run_def by (induction cs arbitrary: s) (simp_all add: perform_ok)

lemma ElevatorSystem_new_ok: "1 \<le> nf \<Longrightarrow> systemOk nf (ElevatorSystem_new nf ne)"
  by (simp add: ElevatorSystem_new_def systemOk_def list_all_iff elevatorOk_def Elevator_new_def
      floorOk_def)

subsection \<open>The scan for the best elevator\<close>

lemma distanceToFloor_nonneg: "0 \<le> distanceToFloor e f"
  by (simp add: distanceToFloor_def)

lemma elevatorScore_spec:
  assumes "spec_score req e \<le> INT_MAX"
  shows "elevatorScore req e = spec_score req e"
proof -
  let ?d = "distanceToFloor e (fromFloor req)"
  let ?p = "if direction e \<noteq> Idle \<and> \<not> spec_compatible req e then 5 else (0::int)"
  let ?n = "int (length (targets e))"
  have d: "0 \<le> ?d" by (rule distanceToFloor_nonneg)
  have sum: "?d + ?p + ?n \<le> INT_MAX" using assms by (simp add: spec_score_def)
  have n: "getQueueSize e = ?n"
    using sum d by (simp add: getQueueSize_def int32_id INT_MIN_def split: if_splits)
  have p: "(if \<not> goingSameWay req e \<and> direction e \<noteq> Idle then int32 (?d + 5) else ?d) = ?d + ?p"
    using sum d
    by (cases "direction e")
       (auto simp: goingSameWay_def spec_compatible_def int32_id INT_MIN_def)
  have "elevatorScore req e = int32 (?d + ?p + ?n)"
    by (simp only: elevatorScore_def Let_def p n)
  also have "\<dots> = ?d + ?p + ?n"
    using sum d by (intro int32_id) (simp_all add: INT_MIN_def)
  finally show ?thesis by (simp add: spec_score_def)
qed

lemma scanElevators_result:
  "(scanElevators req es i (bi, bs) = (bi, bs) \<and> (\<forall>e \<in> set es. bs \<le> elevatorScore req e)) \<or>
   (\<exists>k < length es.
      scanElevators req es i (bi, bs) = (int (i + k), elevatorScore req (es ! k)) \<and>
      elevatorScore req (es ! k) < bs \<and>
      (\<forall>j < k. elevatorScore req (es ! k) < elevatorScore req (es ! j)) \<and>
      (\<forall>j < length es. elevatorScore req (es ! k) \<le> elevatorScore req (es ! j)))"
proof (induction es arbitrary: i bi bs)
  case Nil
  then show ?case by simp
next
  case (Cons e es)
  show ?case
  proof (cases "elevatorScore req e < bs")
    case True
    from Cons.IH[of "Suc i" "int i" "elevatorScore req e"]
    show ?thesis
    proof (elim disjE conjE exE)
      assume a: "scanElevators req es (Suc i) (int i, elevatorScore req e) = (int i, elevatorScore req e)"
        and b: "\<forall>x \<in> set es. elevatorScore req e \<le> elevatorScore req x"
      have "\<forall>j < length (e # es). elevatorScore req e \<le> elevatorScore req ((e # es) ! j)"
        using b by (auto simp: nth_Cons split: nat.splits)
      then have "0 < length (e # es) \<and>
          scanElevators req (e # es) i (bi, bs) = (int (i + 0), elevatorScore req ((e # es) ! 0)) \<and>
          elevatorScore req ((e # es) ! 0) < bs \<and>
          (\<forall>j < 0. elevatorScore req ((e # es) ! 0) < elevatorScore req ((e # es) ! j)) \<and>
          (\<forall>j < length (e # es). elevatorScore req ((e # es) ! 0) \<le> elevatorScore req ((e # es) ! j))"
        using True a by simp
      then show ?thesis by blast
    next
      fix k
      assume k: "k < length es"
        and a: "scanElevators req es (Suc i) (int i, elevatorScore req e) =
                  (int (Suc i + k), elevatorScore req (es ! k))"
        and lt: "elevatorScore req (es ! k) < elevatorScore req e"
        and before: "\<forall>j < k. elevatorScore req (es ! k) < elevatorScore req (es ! j)"
        and all: "\<forall>j < length es. elevatorScore req (es ! k) \<le> elevatorScore req (es ! j)"
      have 1: "\<forall>j < Suc k. elevatorScore req ((e # es) ! Suc k) < elevatorScore req ((e # es) ! j)"
        using before lt by (auto simp: nth_Cons split: nat.splits)
      have 2: "\<forall>j < length (e # es). elevatorScore req ((e # es) ! Suc k) \<le> elevatorScore req ((e # es) ! j)"
        using all lt by (auto simp: nth_Cons split: nat.splits)
      have "Suc k < length (e # es) \<and>
          scanElevators req (e # es) i (bi, bs) = (int (i + Suc k), elevatorScore req ((e # es) ! Suc k)) \<and>
          elevatorScore req ((e # es) ! Suc k) < bs"
        using True a k lt by simp
      then show ?thesis using 1 2 by blast
    qed
  next
    case False
    from Cons.IH[of "Suc i" bi bs]
    show ?thesis
    proof (elim disjE conjE exE)
      assume a: "scanElevators req es (Suc i) (bi, bs) = (bi, bs)"
        and b: "\<forall>x \<in> set es. bs \<le> elevatorScore req x"
      then show ?thesis using False by simp
    next
      fix k
      assume k: "k < length es"
        and a: "scanElevators req es (Suc i) (bi, bs) =
                  (int (Suc i + k), elevatorScore req (es ! k))"
        and lt: "elevatorScore req (es ! k) < bs"
        and before: "\<forall>j < k. elevatorScore req (es ! k) < elevatorScore req (es ! j)"
        and all: "\<forall>j < length es. elevatorScore req (es ! k) \<le> elevatorScore req (es ! j)"
      have 1: "\<forall>j < Suc k. elevatorScore req ((e # es) ! Suc k) < elevatorScore req ((e # es) ! j)"
        using before lt False by (auto simp: nth_Cons split: nat.splits)
      have 2: "\<forall>j < length (e # es). elevatorScore req ((e # es) ! Suc k) \<le> elevatorScore req ((e # es) ! j)"
        using all lt False by (auto simp: nth_Cons split: nat.splits)
      have "Suc k < length (e # es) \<and>
          scanElevators req (e # es) i (bi, bs) = (int (i + Suc k), elevatorScore req ((e # es) ! Suc k)) \<and>
          elevatorScore req ((e # es) ! Suc k) < bs"
        using False a k lt by simp
      then show ?thesis using 1 2 by blast
    qed
  qed
qed

lemma findBest_none:
  "\<forall>e \<in> set es. INT_MAX \<le> elevatorScore req e \<Longrightarrow> findBest req es = - 1"
proof -
  assume high: "\<forall>e \<in> set es. INT_MAX \<le> elevatorScore req e"
  have "\<not> (\<exists>k < length es. elevatorScore req (es ! k) < INT_MAX)"
    using high by (metis nth_mem not_less)
  then have "scanElevators req es 0 (- 1, INT_MAX) = (- 1, INT_MAX)"
    using scanElevators_result[of req es 0 "- 1" INT_MAX] by blast
  then show ?thesis by (simp add: findBest_def)
qed

lemma findBest_some:
  assumes "\<exists>e \<in> set es. elevatorScore req e < INT_MAX"
  shows "0 \<le> findBest req es \<and> nat (findBest req es) < length es \<and>
         elevatorScore req (es ! nat (findBest req es)) < INT_MAX \<and>
         (\<forall>j < nat (findBest req es).
            elevatorScore req (es ! nat (findBest req es)) < elevatorScore req (es ! j)) \<and>
         (\<forall>j < length es.
            elevatorScore req (es ! nat (findBest req es)) \<le> elevatorScore req (es ! j))"
proof -
  from scanElevators_result[of req es 0 "- 1" INT_MAX]
  show ?thesis
  proof (elim disjE conjE exE)
    assume "\<forall>e \<in> set es. INT_MAX \<le> elevatorScore req e"
    then have False using assms by (auto simp: not_less[symmetric])
    then show ?thesis ..
  next
    fix k
    assume k: "k < length es"
      and a: "scanElevators req es 0 (- 1, INT_MAX) = (int (0 + k), elevatorScore req (es ! k))"
      and lt: "elevatorScore req (es ! k) < INT_MAX"
      and before: "\<forall>j < k. elevatorScore req (es ! k) < elevatorScore req (es ! j)"
      and all: "\<forall>j < length es. elevatorScore req (es ! k) \<le> elevatorScore req (es ! j)"
    have "findBest req es = int k" using a by (simp add: findBest_def)
    then show ?thesis using k lt before all by simp
  qed
qed

subsection \<open>The loop over the backlog\<close>

lemma spec_score_le:
  "spec_score req e \<le> distanceToFloor e (fromFloor req) + 5 + int (length (targets e))"
  by (simp add: spec_score_def)

lemma addTarget_floor: "currentFloor (addTarget f e) = currentFloor e"
  by (simp add: addTarget_def)

lemma addTarget_size: "length (targets (addTarget f e)) \<le> length (targets e) + 1"
  by (simp add: addTarget_def)

lemma pushRequest_nth:
  assumes "k < length es"
  shows "currentFloor (pushRequest r es ! k) = currentFloor (es ! k) \<and>
         length (targets (pushRequest r es ! k)) \<le> length (targets (es ! k)) + 2"
proof (cases "k = nat (findBest r es)")
  case True
  have "pushRequest r es ! k = addTarget (toFloor r) (addTarget (fromFloor r) (es ! k))"
    using assms True by (simp add: pushRequest_def)
  moreover have "length (targets (addTarget (toFloor r) (addTarget (fromFloor r) (es ! k))))
      \<le> length (targets (es ! k)) + 2"
    using addTarget_size[of "toFloor r" "addTarget (fromFloor r) (es ! k)"]
      addTarget_size[of "fromFloor r" "es ! k"] by simp
  ultimately show ?thesis by (simp add: addTarget_floor)
next
  case False
  then have "pushRequest r es ! k = es ! k" by (simp add: pushRequest_def)
  then show ?thesis by simp
qed

lemma fold_assignOne_room:
  "k < length es \<Longrightarrow>
   \<forall>r \<in> set reqs. distanceToFloor (es ! k) (fromFloor r) + 5 + int (length (targets (es ! k)))
        + 2 * int (length reqs) < INT_MAX \<Longrightarrow>
   \<exists>p'. fold assignOne reqs (es, p, sp) = (fold pushRequest reqs es, p', sp)"
proof (induction reqs arbitrary: es p)
  case Nil
  then show ?case by simp
next
  case (Cons r rs)
  have "distanceToFloor (es ! k) (fromFloor r) + 5 + int (length (targets (es ! k)))
          + 2 * int (length (r # rs)) < INT_MAX"
    using Cons.prems(2) by simp
  then have small: "spec_score r (es ! k) < INT_MAX"
    using spec_score_le[of r "es ! k"] by simp
  then have "elevatorScore r (es ! k) < INT_MAX"
    by (simp add: elevatorScore_spec)
  then have "\<exists>e \<in> set es. elevatorScore r e < INT_MAX"
    using Cons.prems(1) nth_mem by blast
  then have "findBest r es \<noteq> - 1" using findBest_some[of es r] by auto
  then have one: "assignOne r (es, p, sp) = (pushRequest r es, int32 (p + 1), sp)"
    by (rule assignOne_assigned)
  have k1: "k < length (pushRequest r es)" using Cons.prems(1) by (simp add: pushRequest_length)
  have same: "currentFloor (pushRequest r es ! k) = currentFloor (es ! k)"
    and grow: "length (targets (pushRequest r es ! k)) \<le> length (targets (es ! k)) + 2"
    using pushRequest_nth[OF Cons.prems(1), of r] by simp_all
  have room: "\<forall>r' \<in> set rs. distanceToFloor (pushRequest r es ! k) (fromFloor r') + 5
        + int (length (targets (pushRequest r es ! k))) + 2 * int (length rs) < INT_MAX"
  proof
    fix r' assume "r' \<in> set rs"
    then have "distanceToFloor (es ! k) (fromFloor r') + 5 + int (length (targets (es ! k)))
          + 2 * int (length (r # rs)) < INT_MAX"
      using Cons.prems(2) by simp
    then show "distanceToFloor (pushRequest r es ! k) (fromFloor r') + 5
        + int (length (targets (pushRequest r es ! k))) + 2 * int (length rs) < INT_MAX"
      using same grow by (simp add: distanceToFloor_def)
  qed
  show ?case using Cons.IH[OF k1 room, of "int32 (p + 1)"] one by simp
qed

lemma fold_assignOne_no_fleet:
  "fold assignOne reqs ([], p, sp) = ([], p, sp @ reqs)"
proof (induction reqs arbitrary: sp)
  case Nil
  then show ?case by simp
next
  case (Cons r rs)
  have "assignOne r ([], p, sp) = ([], p, sp @ [r])"
    by (simp add: assignOne_def findBest_def)
  then show ?case using Cons.IH[of "sp @ [r]"] by simp
qed

subsection \<open>Bursts of requests\<close>

lemma shuttle_0: "shuttle 0 = []"
  by (simp add: shuttle_def)

lemma shuttle_Suc: "shuttle (Suc n) = 0 # 3 # shuttle n"
  by (simp add: shuttle_def)

lemma shuttle_snoc: "shuttle n @ [0, 3] = shuttle (Suc n)"
  by (induction n) (simp_all add: shuttle_0 shuttle_Suc)

lemma shuttle_append: "shuttle m @ shuttle n = shuttle (m + n)"
  by (induction m) (simp_all add: shuttle_0 shuttle_Suc)

lemma length_shuttle: "length (shuttle n) = 2 * n"
  by (induction n) (simp_all add: shuttle_0 shuttle_Suc)

lemma shuttle_last: "shuttle n = [] \<or> last (shuttle n) = 3"
  by (cases n) (simp_all add: shuttle_0 shuttle_snoc[symmetric] del: shuttle_snoc)

lemma shuttle_pos: "0 < n \<Longrightarrow> shuttle n = 0 # 3 # shuttle (n - 1)"
  by (cases n) (simp_all add: shuttle_Suc)

lemma burst_score:
  assumes "direction e = Idle" "currentFloor e = 0" "fromFloor r = 0"
  shows "elevatorScore r (e\<lparr>targets := q\<rparr>) = int32 (int (length q))"
  using assms int32_add_left[of "int (length q)" 0]
  by (simp add: elevatorScore_def goingSameWay_def distanceToFloor_def getQueueSize_def)

lemma burst_push:
  assumes "fromFloor r = 0" "toFloor r = 3" "q = [] \<or> last q = 3"
  shows "addTarget (toFloor r) (addTarget (fromFloor r) (e\<lparr>targets := q\<rparr>)) =
         e\<lparr>targets := q @ [0, 3]\<rparr>"
  using assms by (auto simp: addTarget_def)

lemma burst_one_elevator:
  assumes e: "direction e = Idle" "currentFloor e = 0" and r: "fromFloor r = 0" "toFloor r = 3"
  shows "q = [] \<or> last q = 3 \<Longrightarrow>
    \<forall>j < n. int32 (int (length q) + 2 * int j) < INT_MAX \<Longrightarrow>
    INT_MIN \<le> p \<Longrightarrow> p \<le> INT_MAX \<Longrightarrow>
    fold assignOne (replicate n r) ([e\<lparr>targets := q\<rparr>], p, []) =
      ([e\<lparr>targets := q @ shuttle n\<rparr>], int32 (p + int n), [])"
proof (induction n arbitrary: q p)
  case 0
  then show ?case by (simp add: shuttle_0 int32_id)
next
  case (Suc n)
  have "int32 (int (length q) + 2 * int 0) < INT_MAX" using Suc.prems(2) by blast
  then have "elevatorScore r (e\<lparr>targets := q\<rparr>) < INT_MAX"
    using burst_score[OF e r(1), of q] by simp
  then have "findBest r [e\<lparr>targets := q\<rparr>] = 0" by (simp add: findBest_def)
  then have one: "assignOne r ([e\<lparr>targets := q\<rparr>], p, []) =
      ([e\<lparr>targets := q @ [0, 3]\<rparr>], int32 (p + 1), [])"
    using burst_push[OF r Suc.prems(1), of e] by (simp add: assignOne_def)
  have next_scores: "\<forall>j < n. int32 (int (length (q @ [0, 3])) + 2 * int j) < INT_MAX"
  proof (intro allI impI)
    fix j assume "j < n"
    then have "int32 (int (length q) + 2 * int (Suc j)) < INT_MAX" using Suc.prems(2) by blast
    then show "int32 (int (length (q @ [0, 3])) + 2 * int j) < INT_MAX"
      by (simp add: algebra_simps)
  qed
  have rest: "fold assignOne (replicate n r) ([e\<lparr>targets := q @ [0, 3]\<rparr>], int32 (p + 1), []) =
      ([e\<lparr>targets := (q @ [0, 3]) @ shuttle n\<rparr>], int32 (int32 (p + 1) + int n), [])"
    using next_scores by (intro Suc.IH) (simp_all add: int32_le int32_ge)
  have "int32 (int32 (p + 1) + int n) = int32 (p + 1 + int n)"
    by (rule int32_add_left)
  then have "int32 (int32 (p + 1) + int n) = int32 (p + int (Suc n))"
    by (simp add: add.assoc)
  moreover have "(q @ [0, 3]) @ shuttle n = q @ shuttle (Suc n)" by (simp add: shuttle_Suc)
  ultimately show ?case using one rest by simp
qed

lemma submissions:
  "numFloors s = 10 \<Longrightarrow>
   fold perform (replicate n (CallAddRequest 0 3)) s =
     s\<lparr>pendingRequests := pendingRequests s @
          replicate n \<lparr>fromFloor = 0, toFloor = 3, timeRequested = currentTime s\<rparr>\<rparr>"
proof (induction n arbitrary: s)
  case 0
  then show ?case by simp
next
  case (Suc n)
  let ?r = "\<lparr>fromFloor = 0, toFloor = 3, timeRequested = currentTime s\<rparr>"
  have one: "perform (CallAddRequest 0 3) s = s\<lparr>pendingRequests := pendingRequests s @ [?r]\<rparr>"
    using Suc.prems by (simp add: addRequest_def)
  show ?case
    using Suc.IH[of "s\<lparr>pendingRequests := pendingRequests s @ [?r]\<rparr>"] Suc.prems one
    by (simp add: replicate_app_Cons_same)
qed

lemma loading_first_three:
  "fold perform [CallAddRequest 0 3, CallStep, CallStep] (ElevatorSystem_new 10 1) =
     \<lparr>numFloors = 10, elevators = [waitingAt [3]], pendingRequests = [],
      currentTime = 2, totalRequestsProcessed = 1\<rparr>"
  by (simp add: waitingAt_def eval_defs)

lemma longQueue_shuttle: "longQueue = 3 # shuttle 1073741823"
  by (simp add: longQueue_def shuttle_def)

lemma loadedSystem_reached: "run loadingCalls (ElevatorSystem_new 10 1) = loadedSystem"
proof -
  let ?s2 = "\<lparr>numFloors = 10, elevators = [waitingAt [3]], pendingRequests = [],
      currentTime = 2, totalRequestsProcessed = 1\<rparr>"
  let ?s3 = "?s2\<lparr>pendingRequests := replicate 1073741823 zeroToThree\<rparr>"
  have a: "fold perform (replicate 1073741823 (CallAddRequest 0 3)) ?s2 = ?s3"
    using submissions[of ?s2 1073741823] by (simp add: zeroToThree_def)
  have w: "waitingAt q = (waitingAt [])\<lparr>targets := q\<rparr>" for q
    by (simp add: waitingAt_def)
  have scores: "\<forall>j < 1073741823. int32 (int (length [3::int]) + 2 * int j) < INT_MAX"
    by (simp add: int32_id INT_MIN_def INT_MAX_def)
  have "fold assignOne (replicate 1073741823 zeroToThree)
      ([(waitingAt [])\<lparr>targets := [3]\<rparr>], 1, []) =
      ([(waitingAt [])\<lparr>targets := [3] @ shuttle 1073741823\<rparr>], int32 (1 + int 1073741823), [])"
    using scores
    by (intro burst_one_elevator) (simp_all add: waitingAt_def zeroToThree_def INT_MIN_def INT_MAX_def)
  then have b: "fold assignOne (replicate 1073741823 zeroToThree) ([waitingAt [3]], 1, []) =
      ([waitingAt longQueue], 1073741824, [])"
    by (simp add: w[symmetric] longQueue_shuttle[symmetric] int32_def)
  have c: "Elevator_step (waitingAt longQueue) = loadedElevator"
    by (simp add: Elevator_step_def waitingAt_def loadedElevator_def longQueue_def)
  have d: "ElevatorSystem_step ?s3 =
      \<lparr>numFloors = 10, elevators = [loadedElevator], pendingRequests = [],
       currentTime = 3, totalRequestsProcessed = 1073741824\<rparr>"
    using b c by (simp add: ElevatorSystem_step_def assignRequests_def int32_def)
  have e: "perform (CallAddRequest 1 3)
      \<lparr>numFloors = 10, elevators = [loadedElevator], pendingRequests = [],
       currentTime = 3, totalRequestsProcessed = 1073741824\<rparr> = loadedSystem"
    by (simp add: addRequest_def loadedSystem_def pickupAtOne_def)
  show ?thesis
    unfolding run_def loadingCalls_def fold_append comp_def loading_first_three a
    using d e by simp
qed

lemma loadedSystem_tick:
  "pendingRequests (ElevatorSystem_step loadedSystem) = [pickupAtOne] \<and>
   totalRequestsProcessed (ElevatorSystem_step loadedSystem) = totalRequestsProcessed loadedSystem"
  by (simp add: ElevatorSystem_step_def Let_def loadedSystem_def assignRequests_def assignOne_def
      loadedElevator_not_found)

lemma new_10_1:
  "ElevatorSystem_new 10 1 =
     \<lparr>numFloors = 10, elevators = [parked 0 []], pendingRequests = [], currentTime = 0,
      totalRequestsProcessed = 0\<rparr>"
  by (simp add: ElevatorSystem_new_def Elevator_new_def parked_def)

lemma burstDone_reached: "run overflowCalls (ElevatorSystem_new 10 1) = burstDone"
proof -
  let ?s0 = "ElevatorSystem_new 10 1"
  let ?s1 = "?s0\<lparr>pendingRequests := replicate 2147483647 fromGround\<rparr>"
  have a: "fold perform (replicate 2147483647 (CallAddRequest 0 3)) ?s0 = ?s1"
    using submissions[of ?s0 2147483647] by (simp add: fromGround_def ElevatorSystem_new_def)
  have p: "parked 0 q = (parked 0 [])\<lparr>targets := q\<rparr>" for q
    by (simp add: parked_def)
  have scores: "\<forall>j < 2147483647. int32 (int (length ([]::int list)) + 2 * int j) < INT_MAX"
    by (simp add: int32_even)
  have "fold assignOne (replicate 2147483647 fromGround) ([(parked 0 [])\<lparr>targets := []\<rparr>], 0, []) =
      ([(parked 0 [])\<lparr>targets := [] @ shuttle 2147483647\<rparr>], int32 (0 + int 2147483647), [])"
    using scores
    by (intro burst_one_elevator) (simp_all add: parked_def fromGround_def INT_MIN_def INT_MAX_def)
  then have b: "fold assignOne (replicate 2147483647 fromGround) ([parked 0 []], 0, []) =
      ([parked 0 (shuttle 2147483647)], 2147483647, [])"
    by (simp add: p[symmetric] int32_def)
  have c: "Elevator_step (parked 0 (shuttle 2147483647)) =
      (parked 0 (shuttle 2147483647))\<lparr>doorOpen := True\<rparr>"
    by (simp add: Elevator_step_def parked_def shuttle_pos[of 2147483647])
  have d: "ElevatorSystem_step ?s1 = burstDone"
    using b c by (simp add: ElevatorSystem_step_def assignRequests_def int32_def new_10_1 burstDone_def)
  show ?thesis
    unfolding run_def overflowCalls_def fold_append comp_def a
    using d by simp
qed

lemma burstDone_next:
  "totalRequestsProcessed (run [CallAddRequest 0 3, CallStep] burstDone) = INT_MIN"
proof -
  let ?e = "(parked 0 (shuttle 2147483647))\<lparr>doorOpen := True\<rparr>"
  let ?r = "\<lparr>fromFloor = 0, toFloor = 3, timeRequested = 1\<rparr>"
  have "?e = ?e\<lparr>targets := shuttle 2147483647\<rparr>" by (simp add: parked_def)
  then have "elevatorScore ?r ?e = int32 (int (length (shuttle 2147483647)))"
    using burst_score[of ?e ?r "shuttle 2147483647"] by (simp add: parked_def)
  then have "elevatorScore ?r ?e = - 2" by (simp add: length_shuttle int32_def)
  then have "findBest ?r [?e] = 0" by (simp add: findBest_def INT_MAX_def)
  then show ?thesis
    by (simp add: run_def burstDone_def addRequest_def ElevatorSystem_step_def assignRequests_def
        assignOne_def Let_def int32_def INT_MIN_def)
qed

subsection \<open>Round trips\<close>

lemma upTrip_run:
  "fold perform upTrip (restAt 0 k p t) = restAt 1 (int32 (k + 2)) (int32 (p + 1)) (int32 (t + 5))"
  by (simp add: upTrip_def restAt_def sym_defs int32_0 int32_adds)

lemma downTrip_run:
  "fold perform downTrip (restAt 1 k p t) = restAt 0 (int32 (k + 2)) (int32 (p + 1)) (int32 (t + 5))"
  by (simp add: downTrip_def restAt_def sym_defs int32_0 int32_adds)

lemma roundTrips_run:
  "INT_MIN \<le> k \<Longrightarrow> k \<le> INT_MAX \<Longrightarrow> INT_MIN \<le> p \<Longrightarrow> p \<le> INT_MAX \<Longrightarrow>
   INT_MIN \<le> t \<Longrightarrow> t \<le> INT_MAX \<Longrightarrow>
   fold perform (concat (replicate n (upTrip @ downTrip))) (restAt 0 k p t) =
     restAt 0 (int32 (k + 4 * int n)) (int32 (p + 2 * int n)) (int32 (t + 10 * int n))"
proof (induction n arbitrary: k p t)
  case 0
  then show ?case by (simp add: int32_id)
next
  case (Suc n)
  have one: "fold perform (upTrip @ downTrip) (restAt 0 k p t) =
      restAt 0 (int32 (k + 4)) (int32 (p + 2)) (int32 (t + 10))"
    by (simp add: upTrip_run downTrip_run int32_adds)
  have rest: "fold perform (concat (replicate n (upTrip @ downTrip)))
        (restAt 0 (int32 (k + 4)) (int32 (p + 2)) (int32 (t + 10))) =
      restAt 0 (int32 (int32 (k + 4) + 4 * int n)) (int32 (int32 (p + 2) + 2 * int n))
        (int32 (int32 (t + 10) + 10 * int n))"
    by (intro Suc.IH) (simp_all add: int32_le int32_ge)
  have "fold perform (concat (replicate (Suc n) (upTrip @ downTrip))) (restAt 0 k p t) =
      fold perform (concat (replicate n (upTrip @ downTrip)))
        (fold perform (upTrip @ downTrip) (restAt 0 k p t))"
    by simp
  moreover have "int32 (int32 (k + 4) + 4 * int n) = int32 (k + 4 * int (Suc n))"
    "int32 (int32 (p + 2) + 2 * int n) = int32 (p + 2 * int (Suc n))"
    "int32 (int32 (t + 10) + 10 * int n) = int32 (t + 10 * int (Suc n))"
    using int32_add_left[of "k + 4" "4 * int n"] int32_add_left[of "p + 2" "2 * int n"]
      int32_add_left[of "t + 10" "10 * int n"]
    by (simp_all add: algebra_simps)
  ultimately show ?case
    unfolding one rest by simp
qed

lemma new_10_1_rest: "ElevatorSystem_new 10 1 = restAt 0 0 0 0"
  by (simp add: ElevatorSystem_new_def Elevator_new_def restAt_def)

lemma lastStop_reached: "run stopCalls (ElevatorSystem_new 10 1) = lastStop"
proof -
  have a: "fold perform (concat (replicate 536870911 (upTrip @ downTrip))) (restAt 0 0 0 0) =
      restAt 0 2147483644 1073741822 (int32 5368709110)"
    using roundTrips_run[of 0 0 0 536870911]
    by (simp add: INT_MIN_def INT_MAX_def) (simp add: int32_def)
  have b: "fold perform upTrip (restAt 0 2147483644 1073741822 (int32 5368709110)) =
      restAt 1 2147483646 1073741823 (int32 5368709115)"
    by (simp add: upTrip_run int32_add_left) (simp add: int32_def)
  have c: "fold perform [CallAddRequest 1 0, CallStep, CallStep, CallStep, CallStep]
      (restAt 1 2147483646 1073741823 (int32 5368709115)) = lastStop"
    by (simp add: restAt_def lastStop_def sym_defs int32_0 int32_add_left) (simp add: int32_def)
  show ?thesis
    unfolding run_def stopCalls_def fold_append comp_def new_10_1_rest a b c ..
qed

lemma lastStop_next:
  "totalStopsServed (hd (elevators (ElevatorSystem_step lastStop))) = INT_MIN"
  by (simp add: lastStop_def sym_defs INT_MIN_def) (simp add: int32_def)

subsection \<open>A burst on two elevators\<close>

lemma parked_score:
  "int (length q) \<le> INT_MAX \<Longrightarrow> elevatorScore fromGround (parked i q) = int (length q)"
proof -
  assume b: "int (length q) \<le> INT_MAX"
  have "parked i q = (parked i [])\<lparr>targets := q\<rparr>" by (simp add: parked_def)
  then have "elevatorScore fromGround (parked i q) = int32 (int (length q))"
    using burst_score[of "parked i []" fromGround q] by (simp add: parked_def fromGround_def)
  then show ?thesis using b by (simp add: int32_id INT_MIN_def)
qed

lemma parked_push:
  "addTarget (toFloor fromGround) (addTarget (fromFloor fromGround) (parked i (shuttle k))) =
   parked i (shuttle (Suc k))"
  using shuttle_last[of k] shuttle_snoc[of k]
  by (auto simp: parked_def addTarget_def fromGround_def)

lemma pair_first:
  assumes "2 * int k < INT_MAX"
  shows "assignOne fromGround ([parked 0 (shuttle k), parked 1 (shuttle k)], p, []) =
         ([parked 0 (shuttle (Suc k)), parked 1 (shuttle k)], int32 (p + 1), [])"
proof -
  have s: "elevatorScore fromGround (parked i (shuttle k)) = 2 * int k" for i
    using assms by (simp add: parked_score length_shuttle)
  have "findBest fromGround [parked 0 (shuttle k), parked 1 (shuttle k)] = 0"
    using assms by (simp add: findBest_def s)
  then show ?thesis by (simp add: assignOne_def parked_push)
qed

lemma pair_second:
  assumes "2 * int k + 2 < INT_MAX"
  shows "assignOne fromGround ([parked 0 (shuttle (Suc k)), parked 1 (shuttle k)], p, []) =
         ([parked 0 (shuttle (Suc k)), parked 1 (shuttle (Suc k))], int32 (p + 1), [])"
proof -
  have s0: "elevatorScore fromGround (parked 0 (shuttle (Suc k))) = 2 * int k + 2"
    using assms by (simp add: parked_score length_shuttle)
  have s1: "elevatorScore fromGround (parked 1 (shuttle k)) = 2 * int k"
    using assms by (simp add: parked_score length_shuttle)
  have "findBest fromGround [parked 0 (shuttle (Suc k)), parked 1 (shuttle k)] = 1"
    using assms by (simp add: findBest_def s0 s1)
  then show ?thesis by (simp add: assignOne_def parked_push)
qed

lemma pairs:
  "2 * int k < INT_MAX \<Longrightarrow>
   fold assignOne (replicate (2 * k) fromGround) ([parked 0 [], parked 1 []], 0, []) =
     ([parked 0 (shuttle k), parked 1 (shuttle k)], 2 * int k, [])"
proof (induction k)
  case 0
  then show ?case by (simp add: shuttle_0)
next
  case (Suc k)
  have small: "2 * int k < INT_MAX" and next_small: "2 * int k + 2 < INT_MAX"
    using Suc.prems by simp_all
  have split: "replicate (2 * Suc k) fromGround = replicate (2 * k) fromGround @ [fromGround, fromGround]"
    using replicate_add[of "2 * k" 2 fromGround] by (simp add: numeral_2_eq_2)
  have w1: "int32 (2 * int k + 1) = 2 * int k + 1" and w2: "int32 (2 * int k + 1 + 1) = 2 * int k + 2"
    using next_small by (simp_all add: int32_id INT_MIN_def)
  show ?case
    unfolding split fold_append comp_def Suc.IH[OF small]
    using pair_first[OF small, of "2 * int k"] pair_second[OF next_small, of "2 * int k + 1"] w1 w2
    by simp
qed

lemma unevenFleet_reached:
  "fold assignOne (replicate 2147483647 fromGround) (elevators (ElevatorSystem_new 10 2), 0, []) =
     (unevenFleet, 2147483647, [])"
proof -
  have fleet: "elevators (ElevatorSystem_new 10 2) = [parked 0 [], parked 1 []]"
    by (simp add: new_10_2 parked_def)
  have split: "replicate 2147483647 fromGround =
      replicate (2 * 1073741823) fromGround @ [fromGround]"
    using replicate_add[of "2 * 1073741823" 1 fromGround] by simp
  have a: "fold assignOne (replicate (2 * 1073741823) fromGround) ([parked 0 [], parked 1 []], 0, []) =
      ([parked 0 (shuttle 1073741823), parked 1 (shuttle 1073741823)], 2 * int 1073741823, [])"
    by (rule pairs) (simp add: INT_MAX_def)
  have b: "assignOne fromGround
      ([parked 0 (shuttle 1073741823), parked 1 (shuttle 1073741823)], 2 * int 1073741823, []) =
      ([parked 0 (shuttle (Suc 1073741823)), parked 1 (shuttle 1073741823)],
       int32 (2 * int 1073741823 + 1), [])"
    by (rule pair_first) (simp add: INT_MAX_def)
  have c: "parked 0 (shuttle (Suc 1073741823)) = parked 0 (shuttle 1073741824)" by simp
  show ?thesis
    unfolding fleet split fold_append comp_def a
    using b c by (simp add: unevenFleet_def int32_def)
qed

lemma unevenFleet_scores:
  "spec_score fromGround (parked 0 (shuttle 1073741824)) = 2147483648 \<and>
   spec_score fromGround (parked 1 (shuttle 1073741823)) = 2147483646 \<and>
   elevatorScore fromGround (parked 0 (shuttle 1073741824)) = - 2147483648 \<and>
   elevatorScore fromGround (parked 1 (shuttle 1073741823)) = 2147483646"
  by (simp add: parked_def fromGround_def spec_score_def spec_compatible_def
      elevatorScore_def goingSameWay_def distanceToFloor_def getQueueSize_def length_shuttle)
     (simp add: int32_def)

lemma unevenFleet_choice: "findBest fromGround unevenFleet = 0"
  by (simp add: unevenFleet_def findBest_def unevenFleet_scores INT_MAX_def)

subsection \<open>Queues without repeated floors\<close>

lemma addTarget_distinct_adj:
  "distinct_adj (targets e) \<Longrightarrow> distinct_adj (targets (addTarget f e))"
  by (cases "targets e = []") (auto simp: addTarget_def distinct_adj_append_iff)

lemma Elevator_step_distinct_adj:
  "distinct_adj (targets e) \<Longrightarrow> distinct_adj (targets (Elevator_step e))"
  by (cases "targets e") (auto simp: Elevator_step_def Let_def dest: distinct_adj_ConsD)

lemma assignOne_keeps:
  assumes keep: "\<And>e f. P e \<Longrightarrow> P (addTarget f e)"
    and "list_all P es" "assignOne r (es, p, sp) = (es', p', sp')"
  shows "list_all P es'"
proof (cases "findBest r es \<noteq> - 1 \<and> nat (findBest r es) < length es")
  case True
  then have "P (es ! nat (findBest r es))" using assms(2) by (simp add: list_all_length)
  then have "P (addTarget (toFloor r) (addTarget (fromFloor r) (es ! nat (findBest r es))))"
    by (intro keep)
  then show ?thesis using assms(2,3) True by (auto simp: assignOne_def Let_def list_all_update)
next
  case False
  then have "es' = es"
    using assms(3) by (auto simp: assignOne_def Let_def list_update_beyond split: if_splits)
  then show ?thesis using assms(2) by simp
qed

lemma fold_assignOne_keeps:
  assumes keep: "\<And>e f. P e \<Longrightarrow> P (addTarget f e)"
  shows "list_all P es \<Longrightarrow> fold assignOne reqs (es, p, sp) = (es', p', sp') \<Longrightarrow> list_all P es'"
proof (induction reqs arbitrary: es p sp)
  case Nil
  then show ?case by simp
next
  case (Cons r rs)
  obtain es1 p1 sp1 where one: "assignOne r (es, p, sp) = (es1, p1, sp1)"
    by (cases "assignOne r (es, p, sp)") auto
  have "list_all P es1" using assignOne_keeps[of P, OF keep Cons.prems(1) one] .
  then show ?case using Cons.IH[of es1 p1 sp1] Cons.prems(2) one by simp
qed

lemma assignRequests_keeps:
  assumes keep: "\<And>e f. P e \<Longrightarrow> P (addTarget f e)" and "list_all P (elevators s)"
  shows "list_all P (elevators (assignRequests s))"
proof -
  obtain es p sp where f:
    "fold assignOne (pendingRequests s) (elevators s, totalRequestsProcessed s, []) = (es, p, sp)"
    by (cases "fold assignOne (pendingRequests s) (elevators s, totalRequestsProcessed s, [])")
      auto
  have "list_all P es" using fold_assignOne_keeps[of P, OF keep assms(2) f] .
  then show ?thesis using f by (simp add: assignRequests_def)
qed

lemma perform_noRepeat:
  "list_all noRepeat (elevators s) \<Longrightarrow> list_all noRepeat (elevators (perform c s))"
proof (cases c)
  case (CallAddRequest f t)
  assume "list_all noRepeat (elevators s)"
  then show ?thesis using CallAddRequest by (simp add: addRequest_def)
next
  case CallStep
  assume a: "list_all noRepeat (elevators s)"
  let ?s1 = "s\<lparr>currentTime := int32 (currentTime s + 1)\<rparr>"
  have "list_all noRepeat (elevators (assignRequests ?s1))"
    using a by (intro assignRequests_keeps) (simp_all add: noRepeat_def addTarget_distinct_adj)
  then show ?thesis using CallStep
    by (simp add: ElevatorSystem_step_def Let_def list_all_iff noRepeat_def Elevator_step_distinct_adj)
qed

lemma run_noRepeat:
  "list_all noRepeat (elevators s) \<Longrightarrow> list_all noRepeat (elevators (run cs s))"
  unfolding run_def by (induction cs arbitrary: s) (simp_all add: perform_noRepeat)

subsection \<open>The dispatch of the double burst\<close>

lemma doubleBurst_backlog:
  "pendingRequests (run doubleBurst (ElevatorSystem_new 10 2)) =
     replicate 2147483647 fromGround @ [fromGround]"
proof -
  have "pendingRequests (run doubleBurst (ElevatorSystem_new 10 2)) =
      replicate 2147483648 fromGround"
    using submissions[of "ElevatorSystem_new 10 2" 2147483648]
    by (simp add: run_def doubleBurst_def fromGround_def ElevatorSystem_new_def)
  moreover have "replicate 2147483648 fromGround = replicate 2147483647 fromGround @ [fromGround]"
    using replicate_add[of 2147483647 1 fromGround] by simp
  ultimately show ?thesis by simp
qed

lemma doubleBurst_fleet:
  "elevators (run doubleBurst (ElevatorSystem_new 10 2)) = elevators (ElevatorSystem_new 10 2)"
  using submissions[of "ElevatorSystem_new 10 2" 2147483648]
  by (simp add: run_def doubleBurst_def ElevatorSystem_new_def)

lemma doubleBurst_dispatch:
  "elevators (assignRequests (run doubleBurst (ElevatorSystem_new 10 2))) =
     [parked 0 (shuttle 1073741825), parked 1 (shuttle 1073741823)]"
proof -
  have last: "assignOne fromGround (unevenFleet, 2147483647, []) =
      ([parked 0 (shuttle (Suc 1073741824)), parked 1 (shuttle 1073741823)],
       int32 (2147483647 + 1), [])"
    by (simp add: assignOne_def unevenFleet_choice) (simp add: unevenFleet_def parked_push)
  have "fold assignOne (replicate 2147483647 fromGround @ [fromGround])
      (elevators (ElevatorSystem_new 10 2), 0, []) =
      ([parked 0 (shuttle (Suc 1073741824)), parked 1 (shuttle 1073741823)],
       int32 (2147483647 + 1), [])"
    unfolding fold_append comp_def unevenFleet_reached using last by simp
  then show ?thesis
    unfolding assignRequests_def doubleBurst_backlog doubleBurst_fleet
    using submissions[of "ElevatorSystem_new 10 2" 2147483648]
    by (simp add: run_def doubleBurst_def ElevatorSystem_new_def)
qed

section \<open>The claims\<close>

subsection \<open>C1: direction and idleness\<close>

text \<open>
  Claim C1 says that after every tick an elevator has direction \<open>Idle\<close> if and only if
  its queue is empty and its door is closed. One half holds, from any system state
  whatever: after a tick, every elevator whose target queue is empty has direction
  \<open>Idle\<close> and its door closed; in particular an empty queue and a closed door imply
  \<open>Idle\<close>.
\<close>

theorem tick_empty_queue_idle:
  "\<forall>e \<in> set (elevators (ElevatorSystem_step s)).
     (targets e = [] \<longrightarrow> direction e = Idle \<and> \<not> doorOpen e) \<and>
     (targets e = [] \<and> \<not> doorOpen e \<longrightarrow> direction e = Idle)"
  by (auto simp: ElevatorSystem_step_def Elevator_step_def Let_def split: if_splits)

theorem tick_empty_queue_idle_witness:
  "hd (elevators (ElevatorSystem_step (ElevatorSystem_new 10 1)))
      \<in> set (elevators (ElevatorSystem_step (ElevatorSystem_new 10 1))) \<and>
   targets (hd (elevators (ElevatorSystem_step (ElevatorSystem_new 10 1)))) = [] \<and>
   \<not> doorOpen (hd (elevators (ElevatorSystem_step (ElevatorSystem_new 10 1)))) \<and>
   direction (hd (elevators (ElevatorSystem_step (ElevatorSystem_new 10 1)))) = Idle"
proof -
  have m: "hd (elevators (ElevatorSystem_step (ElevatorSystem_new 10 1)))
      \<in> set (elevators (ElevatorSystem_step (ElevatorSystem_new 10 1)))"
    by (simp add: step_new_10_1)
  have t: "targets (hd (elevators (ElevatorSystem_step (ElevatorSystem_new 10 1)))) = []"
    by (simp add: step_new_10_1)
  show ?thesis using tick_empty_queue_idle [of "ElevatorSystem_new 10 1"] m t by blast
qed

text \<open>
  The other half fails. \<open>step\<close> sets the direction only when it moves the car or finds the
  queue empty, so an idle elevator that is asked to pick up at the floor where it stands
  opens its door, and later closes it, with direction \<open>Idle\<close> and a queue that is not
  empty: one elevator, the request (0, 3), one tick.
\<close>

theorem tick_idle_iff_counterexample:
  "\<not> (direction (hd (elevators (ElevatorSystem_step pickupHere))) = Idle \<longleftrightarrow>
        targets (hd (elevators (ElevatorSystem_step pickupHere))) = [] \<and>
        \<not> doorOpen (hd (elevators (ElevatorSystem_step pickupHere))))"
  by (simp add: step_pickupHere)

subsection \<open>C2: the score and the choice of the elevator\<close>

text \<open>
  Claim C2, within the range of \<open>int\<close>. The score of the specification is the distance
  to the pickup floor, plus 5 for an elevator that is neither idle nor compatible, plus
  the length of its queue. Where that score is at most \<open>INT_MAX\<close> the loop computes
  exactly it. If that holds for every elevator of the fleet, and some elevator scores
  below \<open>INT_MAX\<close>, the request is assigned to an elevator of least score, the one of lowest
  index among them: its pickup floor, then its destination, are added to that queue and
  the counter is incremented.
\<close>

theorem assign_min_score_when_scores_fit:
  "(spec_score req e \<le> INT_MAX \<longrightarrow> elevatorScore req e = spec_score req e) \<and>
   ((\<forall>x \<in> set elevs. spec_score req x \<le> INT_MAX) \<and>
    (\<exists>x \<in> set elevs. spec_score req x < INT_MAX) \<longrightarrow>
      0 \<le> findBest req elevs \<and> nat (findBest req elevs) < length elevs \<and>
      (\<forall>j < length elevs.
         spec_score req (elevs ! nat (findBest req elevs)) \<le> spec_score req (elevs ! j)) \<and>
      (\<forall>j < nat (findBest req elevs).
         spec_score req (elevs ! nat (findBest req elevs)) < spec_score req (elevs ! j)) \<and>
      assignOne req (elevs, p, sp) =
        (elevs[nat (findBest req elevs) :=
           addTarget (toFloor req) (addTarget (fromFloor req) (elevs ! nat (findBest req elevs)))],
         int32 (p + 1), sp))"
proof (intro conjI impI)
  assume "spec_score req e \<le> INT_MAX"
  then show "elevatorScore req e = spec_score req e" by (rule elevatorScore_spec)
next
  assume a: "(\<forall>x \<in> set elevs. spec_score req x \<le> INT_MAX) \<and>
    (\<exists>x \<in> set elevs. spec_score req x < INT_MAX)"
  then have same: "\<And>x. x \<in> set elevs \<Longrightarrow> elevatorScore req x = spec_score req x"
    by (simp add: elevatorScore_spec)
  have ex: "\<exists>x \<in> set elevs. elevatorScore req x < INT_MAX"
    using a same by auto
  note best = findBest_some[OF ex]
  have i: "nat (findBest req elevs) < length elevs" using best by simp
  have at: "\<And>j. j < length elevs \<Longrightarrow> elevatorScore req (elevs ! j) = spec_score req (elevs ! j)"
    using same by simp
  show "0 \<le> findBest req elevs" using best by simp
  show "nat (findBest req elevs) < length elevs" by (rule i)
  show "\<forall>j < length elevs.
         spec_score req (elevs ! nat (findBest req elevs)) \<le> spec_score req (elevs ! j)"
  proof (intro allI impI)
    fix j assume j: "j < length elevs"
    have "elevatorScore req (elevs ! nat (findBest req elevs)) \<le> elevatorScore req (elevs ! j)"
      using best j by blast
    then show "spec_score req (elevs ! nat (findBest req elevs)) \<le> spec_score req (elevs ! j)"
      by (simp only: at[OF j] at[OF i])
  qed
  show "\<forall>j < nat (findBest req elevs).
         spec_score req (elevs ! nat (findBest req elevs)) < spec_score req (elevs ! j)"
  proof (intro allI impI)
    fix j assume b: "j < nat (findBest req elevs)"
    then have j: "j < length elevs" using i by simp
    have "elevatorScore req (elevs ! nat (findBest req elevs)) < elevatorScore req (elevs ! j)"
      using best b by blast
    then show "spec_score req (elevs ! nat (findBest req elevs)) < spec_score req (elevs ! j)"
      by (simp only: at[OF j] at[OF i])
  qed
  have "findBest req elevs \<noteq> - 1" using best by auto
  then show "assignOne req (elevs, p, sp) =
        (elevs[nat (findBest req elevs) :=
           addTarget (toFloor req) (addTarget (fromFloor req) (elevs ! nat (findBest req elevs)))],
         int32 (p + 1), sp)"
    by (simp add: assignOne_assigned pushRequest_def)
qed

text \<open>
  The penalty scenario of the specification: elevator 0 scores 1 + 5 + 1, elevator 1 scores
  1 and wins.
\<close>

theorem assign_min_score_when_scores_fit_witness:
  "spec_score fromFloorOne (penaltyFleet ! 0) = 7 \<and>
   spec_score fromFloorOne (penaltyFleet ! 1) = 1 \<and>
   elevatorScore fromFloorOne (penaltyFleet ! 0) = 7 \<and>
   elevatorScore fromFloorOne (penaltyFleet ! 1) = 1 \<and>
   list_all (\<lambda>x. spec_score fromFloorOne x \<le> INT_MAX) penaltyFleet \<and>
   penaltyFleet ! 1 \<in> set penaltyFleet \<and>
   spec_score fromFloorOne (penaltyFleet ! 1) < INT_MAX \<and>
   findBest fromFloorOne penaltyFleet = 1 \<and>
   assignOne fromFloorOne (penaltyFleet, 0, []) =
     (penaltyFleet[1 := (penaltyFleet ! 1)\<lparr>targets := [1, 4]\<rparr>], 1, [])"
proof -
  have s0: "spec_score fromFloorOne (penaltyFleet ! 0) = 7"
    and s1: "spec_score fromFloorOne (penaltyFleet ! 1) = 1"
    by (simp_all add: spec_score_def spec_compatible_def distanceToFloor_def penaltyFleet_def
        fromFloorOne_def)
  have fit0: "spec_score fromFloorOne (penaltyFleet ! 0) \<le> INT_MAX"
    and fit1: "spec_score fromFloorOne (penaltyFleet ! 1) \<le> INT_MAX"
    using s0 s1 by (simp_all add: INT_MAX_def)
  have c0: "elevatorScore fromFloorOne (penaltyFleet ! 0) = 7"
    using assign_min_score_when_scores_fit [of fromFloorOne "penaltyFleet ! 0" penaltyFleet 0 "[]"]
      fit0 s0 by simp
  have c1: "elevatorScore fromFloorOne (penaltyFleet ! 1) = 1"
    using assign_min_score_when_scores_fit [of fromFloorOne "penaltyFleet ! 1" penaltyFleet 0 "[]"]
      fit1 s1 by simp
  have fleet: "penaltyFleet = [penaltyFleet ! 0, penaltyFleet ! 1]" by (simp add: penaltyFleet_def)
  have all: "\<forall>x \<in> set penaltyFleet. spec_score fromFloorOne x \<le> INT_MAX"
    using fit0 fit1 by (subst fleet) simp
  have m: "penaltyFleet ! 1 \<in> set penaltyFleet" by (simp add: penaltyFleet_def)
  have ex: "\<exists>x \<in> set penaltyFleet. spec_score fromFloorOne x < INT_MAX"
    using m s1 by (intro bexI[of _ "penaltyFleet ! 1"]) (simp_all add: INT_MAX_def)
  have len: "length penaltyFleet = 2" by (simp add: penaltyFleet_def)
  note t = assign_min_score_when_scores_fit [of fromFloorOne "penaltyFleet ! 0" penaltyFleet 0 "[]"]
  have nonneg: "0 \<le> findBest fromFloorOne penaltyFleet"
    and lt: "nat (findBest fromFloorOne penaltyFleet) < 2"
    and least: "spec_score fromFloorOne (penaltyFleet ! nat (findBest fromFloorOne penaltyFleet))
        \<le> spec_score fromFloorOne (penaltyFleet ! 1)"
    and one: "assignOne fromFloorOne (penaltyFleet, 0, []) =
        (penaltyFleet[nat (findBest fromFloorOne penaltyFleet) :=
           addTarget (toFloor fromFloorOne) (addTarget (fromFloor fromFloorOne)
             (penaltyFleet ! nat (findBest fromFloorOne penaltyFleet)))], int32 (0 + 1), [])"
    using t all ex len by simp_all
  have "nat (findBest fromFloorOne penaltyFleet) \<noteq> 0"
    using least s0 s1 by auto
  then have "nat (findBest fromFloorOne penaltyFleet) = 1" using lt by simp
  then have fb: "findBest fromFloorOne penaltyFleet = 1" using nonneg by simp
  have a: "assignOne fromFloorOne (penaltyFleet, 0, []) =
     (penaltyFleet[1 := (penaltyFleet ! 1)\<lparr>targets := [1, 4]\<rparr>], 1, [])"
    using one fb by (simp add: addTarget_def penaltyFleet_def fromFloorOne_def int32_def)
  show ?thesis using s0 s1 c0 c1 all m fb a by (simp add: INT_MAX_def list_all_iff)
qed

text \<open>
  Beyond the range of \<open>int\<close> the claim fails. A client submits 2147483648 requests (0, 3)
  to a new system of two elevators and ticks. The loop fills the two queues in turn; when
  it comes to the last request, elevator 0 holds 2147483648 targets and elevator 1 holds
  2147483646. The score of elevator 1 is the smaller one, but \<open>getQueueSize\<close> of elevator 0
  is \<open>INT_MIN\<close>, so the loop scores elevator 0 lower and assigns the request to it.
\<close>

theorem assign_min_score_counterexample:
  "pendingRequests (run doubleBurst (ElevatorSystem_new 10 2)) =
     replicate 2147483647 fromGround @ [fromGround] \<and>
   fold assignOne (replicate 2147483647 fromGround)
     (elevators (run doubleBurst (ElevatorSystem_new 10 2)), 0, []) =
     (unevenFleet, 2147483647, []) \<and>
   spec_score fromGround (unevenFleet ! 0) = 2147483648 \<and>
   spec_score fromGround (unevenFleet ! 1) = 2147483646 \<and>
   elevatorScore fromGround (unevenFleet ! 0) = - 2147483648 \<and>
   findBest fromGround unevenFleet = 0 \<and>
   map (\<lambda>e. length (targets e))
     (elevators (assignRequests (run doubleBurst (ElevatorSystem_new 10 2)))) =
     [2147483650, 2147483646]"
proof -
  have reached: "fold assignOne (replicate 2147483647 fromGround)
     (elevators (run doubleBurst (ElevatorSystem_new 10 2)), 0, []) =
     (unevenFleet, 2147483647, [])"
    unfolding doubleBurst_fleet by (rule unevenFleet_reached)
  have s0: "spec_score fromGround (unevenFleet ! 0) = 2147483648"
    and s1: "spec_score fromGround (unevenFleet ! 1) = 2147483646"
    and c0: "elevatorScore fromGround (unevenFleet ! 0) = - 2147483648"
    by (simp_all add: unevenFleet_def unevenFleet_scores)
  have after: "map (\<lambda>e. length (targets e))
     (elevators (assignRequests (run doubleBurst (ElevatorSystem_new 10 2)))) =
     [2147483650, 2147483646]"
    by (simp add: doubleBurst_dispatch parked_def length_shuttle)
  show ?thesis
    by (intro conjI doubleBurst_backlog reached s0 s1 c0 unevenFleet_choice after)
qed

subsection \<open>C3: the branches of step and the dwell\<close>

text \<open>
  Claim C3. \<open>step\<close> takes exactly one of three branches, told apart by the door and the
  queue. With the door open it closes the door, increments \<open>totalStopsServed\<close>, removes the
  front target if that is the current floor, sets the direction to \<open>Idle\<close> if the queue is
  then empty, and does not move. With the door closed and the queue empty it only sets
  the direction to \<open>Idle\<close>. Otherwise it moves one floor towards the front target, or opens
  the door when it stands there. So an elevator that stands at its front target with the
  door closed opens the door on the first step without moving, closes it on the second
  without moving, and on the third moves one floor towards the next target, when there is
  one on another floor (no queue a client can bring about holds the same floor twice in a
  row).
\<close>

theorem Elevator_step_branches_dwell:
  "(doorOpen e \<longrightarrow>
      \<not> doorOpen (Elevator_step e) \<and>
      totalStopsServed (Elevator_step e) = int32 (totalStopsServed e + 1) \<and>
      targets (Elevator_step e) =
        (if targets e \<noteq> [] \<and> hd (targets e) = currentFloor e then tl (targets e) else targets e) \<and>
      direction (Elevator_step e) =
        (if targets (Elevator_step e) = [] then Idle else direction e) \<and>
      currentFloor (Elevator_step e) = currentFloor e \<and>
      ident (Elevator_step e) = ident e) \<and>
   (\<not> doorOpen e \<and> targets e = [] \<longrightarrow> Elevator_step e = e\<lparr>direction := Idle\<rparr>) \<and>
   (\<not> doorOpen e \<and> targets e \<noteq> [] \<and> currentFloor e < hd (targets e) \<longrightarrow>
      Elevator_step e = e\<lparr>currentFloor := currentFloor e + 1, direction := Up\<rparr>) \<and>
   (\<not> doorOpen e \<and> targets e \<noteq> [] \<and> hd (targets e) < currentFloor e \<longrightarrow>
      Elevator_step e = e\<lparr>currentFloor := currentFloor e - 1, direction := Down\<rparr>) \<and>
   (\<not> doorOpen e \<and> targets e \<noteq> [] \<and> currentFloor e = hd (targets e) \<longrightarrow>
      Elevator_step e = e\<lparr>doorOpen := True\<rparr> \<and>
      Elevator_step (Elevator_step e) =
        e\<lparr>totalStopsServed := int32 (totalStopsServed e + 1), targets := tl (targets e),
          direction := (if tl (targets e) = [] then Idle else direction e)\<rparr> \<and>
      (tl (targets e) \<noteq> [] \<and> hd (tl (targets e)) \<noteq> currentFloor e \<longrightarrow>
         \<not> doorOpen (Elevator_step (Elevator_step (Elevator_step e))) \<and>
         targets (Elevator_step (Elevator_step (Elevator_step e))) = tl (targets e) \<and>
         currentFloor (Elevator_step (Elevator_step (Elevator_step e))) =
           (if currentFloor e < hd (tl (targets e)) then currentFloor e + 1
            else currentFloor e - 1)))"
  by (auto simp: Elevator_step_def Let_def)

theorem Elevator_step_branches_dwell_witness:
  "\<not> doorOpen arrivedAtFive \<and> targets arrivedAtFive \<noteq> [] \<and>
   currentFloor arrivedAtFive = hd (targets arrivedAtFive) \<and>
   tl (targets arrivedAtFive) \<noteq> [] \<and> hd (tl (targets arrivedAtFive)) \<noteq> currentFloor arrivedAtFive \<and>
   Elevator_step arrivedAtFive = arrivedAtFive\<lparr>doorOpen := True\<rparr> \<and>
   Elevator_step (Elevator_step arrivedAtFive) =
     arrivedAtFive\<lparr>totalStopsServed := 1, targets := [8]\<rparr> \<and>
   currentFloor (Elevator_step (Elevator_step (Elevator_step arrivedAtFive))) = 6 \<and>
   doorOpen (arrivedAtFive\<lparr>doorOpen := True\<rparr>) \<and>
   totalStopsServed (Elevator_step (arrivedAtFive\<lparr>doorOpen := True\<rparr>)) = 1 \<and>
   targets (Elevator_step (arrivedAtFive\<lparr>doorOpen := True\<rparr>)) = [8] \<and>
   currentFloor (Elevator_step (arrivedAtFive\<lparr>doorOpen := True\<rparr>)) = 5 \<and>
   targets (Elevator_new 0 0) = [] \<and>
   Elevator_step (Elevator_new 0 0) = Elevator_new 0 0 \<and>
   Elevator_step (arrivedAtFive\<lparr>currentFloor := 2\<rparr>) = arrivedAtFive\<lparr>currentFloor := 3\<rparr> \<and>
   Elevator_step (arrivedAtFive\<lparr>currentFloor := 7\<rparr>) =
     arrivedAtFive\<lparr>currentFloor := 6, direction := Down\<rparr>"
  using Elevator_step_branches_dwell [of arrivedAtFive]
    Elevator_step_branches_dwell [of "arrivedAtFive\<lparr>doorOpen := True\<rparr>"]
    Elevator_step_branches_dwell [of "Elevator_new 0 0"]
    Elevator_step_branches_dwell [of "arrivedAtFive\<lparr>currentFloor := 2\<rparr>"]
    Elevator_step_branches_dwell [of "arrivedAtFive\<lparr>currentFloor := 7\<rparr>"]
  by (simp add: arrivedAtFive_def Elevator_new_def Elevator_step_def int32_def)

subsection \<open>C4: validation of a request\<close>

text \<open>
  Claim C4. \<open>addRequest\<close> with a floor outside \<open>[0, numFloors - 1]\<close> reports the range
  error and leaves the system as it was; with both floors in range and equal it reports
  the same-floor error and leaves the system as it was; otherwise it appends one request,
  stamped with the current time, to the backlog and changes nothing else.
\<close>

theorem addRequest_validation:
  "(from < 0 \<or> numFloors s - 1 < from \<or> to < 0 \<or> numFloors s - 1 < to
      \<longrightarrow> addRequest from to s = (OutOfRange, s)) \<and>
   (0 \<le> from \<and> from \<le> numFloors s - 1 \<and> 0 \<le> to \<and> to \<le> numFloors s - 1 \<and> from = to
      \<longrightarrow> addRequest from to s = (SameFloor, s)) \<and>
   (0 \<le> from \<and> from \<le> numFloors s - 1 \<and> 0 \<le> to \<and> to \<le> numFloors s - 1 \<and> from \<noteq> to
      \<longrightarrow> addRequest from to s =
            (Added, s\<lparr>pendingRequests := pendingRequests s @
                        [\<lparr>fromFloor = from, toFloor = to, timeRequested = currentTime s\<rparr>]\<rparr>))"
  by (auto simp: addRequest_def)

theorem addRequest_validation_witness:
  "addRequest (- 1) 3 (ElevatorSystem_new 10 2) = (OutOfRange, ElevatorSystem_new 10 2) \<and>
   addRequest 4 4 (ElevatorSystem_new 10 2) = (SameFloor, ElevatorSystem_new 10 2) \<and>
   addRequest 5 8 (ElevatorSystem_new 10 2) =
     (Added, (ElevatorSystem_new 10 2)\<lparr>pendingRequests :=
        [\<lparr>fromFloor = 5, toFloor = 8, timeRequested = 0\<rparr>]\<rparr>)"
  using addRequest_validation [of "- 1" "ElevatorSystem_new 10 2" 3]
        addRequest_validation [of 4 "ElevatorSystem_new 10 2" 4]
        addRequest_validation [of 5 "ElevatorSystem_new 10 2" 8]
  by (simp add: ElevatorSystem_new_def)

subsection \<open>C5: an open door is at the front target\<close>

text \<open>
  Claim C5. After a tick, from any system state whatever, every elevator whose door is
  open has a queue that is not empty and stands at the floor at the front of it.
\<close>

theorem tick_door_open_front:
  "\<forall>e \<in> set (elevators (ElevatorSystem_step s)).
     doorOpen e \<longrightarrow> targets e \<noteq> [] \<and> currentFloor e = hd (targets e)"
  by (auto simp: ElevatorSystem_step_def Elevator_step_def Let_def split: if_splits)

theorem tick_door_open_front_witness:
  "hd (elevators (ElevatorSystem_step pickupHere)) \<in> set (elevators (ElevatorSystem_step pickupHere)) \<and>
   doorOpen (hd (elevators (ElevatorSystem_step pickupHere))) \<and>
   targets (hd (elevators (ElevatorSystem_step pickupHere))) \<noteq> [] \<and>
   currentFloor (hd (elevators (ElevatorSystem_step pickupHere))) =
     hd (targets (hd (elevators (ElevatorSystem_step pickupHere))))"
proof -
  have m: "hd (elevators (ElevatorSystem_step pickupHere))
      \<in> set (elevators (ElevatorSystem_step pickupHere))"
    by (simp add: step_pickupHere)
  have d: "doorOpen (hd (elevators (ElevatorSystem_step pickupHere)))"
    by (simp add: step_pickupHere)
  show ?thesis using tick_door_open_front [of pickupHere] m d by blast
qed

subsection \<open>C6: floors stay in the building\<close>

text \<open>
  Claim C6. In a system constructed with at least one floor, after any sequence of calls
  of \<open>addRequest\<close> and \<open>step\<close>, every elevator stands at a floor in
  \<open>[0, numFloors - 1]\<close>.
\<close>

theorem run_floor_in_range:
  "1 \<le> nf \<Longrightarrow>
   \<forall>e \<in> set (elevators (run cs (ElevatorSystem_new nf ne))).
     0 \<le> currentFloor e \<and> currentFloor e \<le> nf - 1"
  using run_ok[OF ElevatorSystem_new_ok, of nf cs ne]
  by (simp add: systemOk_def list_all_iff elevatorOk_def floorOk_def)

theorem run_floor_in_range_witness:
  "(1::int) \<le> 10 \<and>
   map currentFloor (elevators (run [CallAddRequest 5 8, CallStep] (ElevatorSystem_new 10 2))) = [1, 0] \<and>
   list_all (\<lambda>e. 0 \<le> currentFloor e \<and> currentFloor e \<le> 10 - 1)
     (elevators (run [CallAddRequest 5 8, CallStep] (ElevatorSystem_new 10 2)))"
proof -
  have r: "run [CallAddRequest 5 8, CallStep] (ElevatorSystem_new 10 2) = greedyAfter 1 1 False [5, 8] 0"
    by (simp add: run_def greedyScenario_def[symmetric] greedy_tick1)
  have h: "(1::int) \<le> 10" by simp
  show ?thesis
    using run_floor_in_range [OF h, of "[CallAddRequest 5 8, CallStep]" 2] r
    by (simp add: list_all_iff greedyAfter_def)
qed

subsection \<open>C7: the backlog after the dispatch\<close>

text \<open>
  Claim C7 says that with at least one elevator the dispatch leaves no request pending.
  The code does not do that. \<open>bestScore\<close> starts at \<open>INT_MAX\<close> and an elevator is taken only
  when its score is strictly below \<open>bestScore\<close>, so an elevator that scores exactly
  \<open>INT_MAX\<close> is passed over as if the fleet were empty. The calls \<open>loadingCalls\<close> bring a
  new system with one elevator to that point: the elevator holds 2147483647 targets, the
  request comes from the floor where it stands, and the request is still pending after
  the dispatch and after the whole tick.
\<close>

theorem assignRequests_keeps_request_despite_fleet:
  "run loadingCalls (ElevatorSystem_new 10 1) = loadedSystem \<and>
   elevators loadedSystem = [loadedElevator] \<and>
   pendingRequests loadedSystem = [pickupAtOne] \<and>
   length (targets loadedElevator) = 2147483647 \<and>
   elevatorScore pickupAtOne loadedElevator = 2147483647 \<and>
   findBest pickupAtOne (elevators loadedSystem) = - 1 \<and>
   pendingRequests (assignRequests loadedSystem) = [pickupAtOne] \<and>
   totalRequestsProcessed (assignRequests loadedSystem) = totalRequestsProcessed loadedSystem \<and>
   pendingRequests (ElevatorSystem_step loadedSystem) = [pickupAtOne]"
proof -
  have e: "elevators loadedSystem = [loadedElevator]"
    and p: "pendingRequests loadedSystem = [pickupAtOne]"
    by (simp_all add: loadedSystem_def)
  have l: "length (targets loadedElevator) = 2147483647"
    by (simp add: loadedElevator_def length_longQueue)
  have s: "elevatorScore pickupAtOne loadedElevator = 2147483647"
    using loadedElevator_score by (simp add: INT_MAX_def)
  have f: "findBest pickupAtOne (elevators loadedSystem) = - 1"
    by (simp add: e loadedElevator_not_found)
  have a: "pendingRequests (assignRequests loadedSystem) = [pickupAtOne]"
    and c: "totalRequestsProcessed (assignRequests loadedSystem) = totalRequestsProcessed loadedSystem"
    by (simp_all add: loadedSystem_def assignRequests_def assignOne_def loadedElevator_not_found)
  have t: "pendingRequests (ElevatorSystem_step loadedSystem) = [pickupAtOne]"
    using loadedSystem_tick by simp
  show ?thesis by (intro conjI loadedSystem_reached e p l s f a c t)
qed

subsection \<open>C8: the greedy scenario\<close>

text \<open>
  Claim C8. Ten floors, two idle elevators at floor 0, the request (5, 8). The first tick
  assigns it to elevator 0, whose queue is then [5, 8], and the counter of processed
  requests is 1. Five ticks later elevator 0 is at floor 5 with its door open and no stop
  counted; the tick after that counts the stop. (The first tick already moves the car to
  floor 1; of the five ticks that follow, four move it and the fifth opens the door.)
\<close>

theorem greedy_assignment_scenario:
  "fst (addRequest 5 8 (ElevatorSystem_new 10 2)) = Added \<and>
   map targets (elevators (ElevatorSystem_step greedyScenario)) = [[5, 8], []] \<and>
   totalRequestsProcessed (ElevatorSystem_step greedyScenario) = 1 \<and>
   pendingRequests (ElevatorSystem_step greedyScenario) = [] \<and>
   currentFloor (elevators (ElevatorSystem_step greedyScenario) ! 0) = 1 \<and>
   currentFloor (elevators ((ElevatorSystem_step ^^ 5) (ElevatorSystem_step greedyScenario)) ! 0) = 5 \<and>
   doorOpen (elevators ((ElevatorSystem_step ^^ 5) (ElevatorSystem_step greedyScenario)) ! 0) \<and>
   totalStopsServed (elevators ((ElevatorSystem_step ^^ 5) (ElevatorSystem_step greedyScenario)) ! 0) = 0 \<and>
   totalStopsServed (elevators (ElevatorSystem_step
      ((ElevatorSystem_step ^^ 5) (ElevatorSystem_step greedyScenario))) ! 0) = 1"
  by (simp only: greedy_tick6 greedy_close)
     (simp add: greedy_tick1 greedyAfter_def addRequest_def new_10_2)

subsection \<open>C9: the counters never go down\<close>

text \<open>
  Claim C9, within the range of \<open>int\<close>. \<open>addRequest\<close> touches neither counter nor the
  fleet, and a tick keeps the size of the fleet. A tick does not lower
  \<open>totalRequestsProcessed\<close> when that counter plus the number of requests the tick assigns
  (the backlog before the tick less the backlog after it) is at most \<open>INT_MAX\<close>. It does
  not lower the \<open>totalStopsServed\<close> of an elevator whose door is closed, nor of one whose
  door is open and whose counter is below \<open>INT_MAX\<close>.
\<close>

theorem counters_monotone_without_overflow:
  "totalRequestsProcessed (snd (addRequest from to s)) = totalRequestsProcessed s \<and>
   elevators (snd (addRequest from to s)) = elevators s \<and>
   length (elevators (ElevatorSystem_step s)) = length (elevators s) \<and>
   (totalRequestsProcessed s +
      (int (length (pendingRequests s)) - int (length (pendingRequests (ElevatorSystem_step s))))
        \<le> INT_MAX \<longrightarrow>
    totalRequestsProcessed s \<le> totalRequestsProcessed (ElevatorSystem_step s)) \<and>
   (\<forall>i < length (elevators s).
      (doorOpen (elevators s ! i) \<longrightarrow> totalStopsServed (elevators s ! i) < INT_MAX) \<longrightarrow>
      totalStopsServed (elevators s ! i) \<le> totalStopsServed (elevators (ElevatorSystem_step s) ! i))"
proof (intro conjI impI allI)
  show "totalRequestsProcessed (snd (addRequest from to s)) = totalRequestsProcessed s"
    by (simp add: addRequest_def)
  show "elevators (snd (addRequest from to s)) = elevators s"
    by (simp add: addRequest_def)
  have fr: "list_all2 sameButTargets (elevators s) (elevators (assignRequests s))"
    using assignRequests_sameButTargets[of s] by simp
  then have len: "length (elevators (assignRequests s)) = length (elevators s)"
    by (simp add: list_all2_lengthD)
  show "length (elevators (ElevatorSystem_step s)) = length (elevators s)"
    using len by (simp add: step_elevators)
  {
    assume "totalRequestsProcessed s +
      (int (length (pendingRequests s)) - int (length (pendingRequests (ElevatorSystem_step s))))
        \<le> INT_MAX"
    then show "totalRequestsProcessed s \<le> totalRequestsProcessed (ElevatorSystem_step s)"
      unfolding step_pending step_processed by (rule assignRequests_processed)
  }
  {
    fix i
    assume i: "i < length (elevators s)"
      and room: "doorOpen (elevators s ! i) \<longrightarrow> totalStopsServed (elevators s ! i) < INT_MAX"
    let ?e = "elevators s ! i" and ?e' = "elevators (assignRequests s) ! i"
    have same: "sameButTargets ?e ?e'" using fr i by (simp add: list_all2_nthD)
    then have "doorOpen ?e' \<longrightarrow> totalStopsServed ?e' < INT_MAX"
      using room by (simp add: sameButTargets_def)
    then have "totalStopsServed ?e' \<le> totalStopsServed (Elevator_step ?e')"
      by (rule Elevator_step_stops)
    then show "totalStopsServed ?e \<le> totalStopsServed (elevators (ElevatorSystem_step s) ! i)"
      using same i len by (simp add: step_elevators sameButTargets_def)
  }
qed

theorem counters_monotone_without_overflow_witness:
  "doorOpen (elevators (greedyAfter 6 5 True [5, 8] 0) ! 0) \<and>
   totalStopsServed (elevators (greedyAfter 6 5 True [5, 8] 0) ! 0) < INT_MAX \<and>
   totalStopsServed (elevators (greedyAfter 6 5 True [5, 8] 0) ! 0) = 0 \<and>
   totalStopsServed (elevators (ElevatorSystem_step (greedyAfter 6 5 True [5, 8] 0)) ! 0) = 1 \<and>
   totalRequestsProcessed greedyScenario +
     (int (length (pendingRequests greedyScenario)) -
      int (length (pendingRequests (ElevatorSystem_step greedyScenario)))) \<le> INT_MAX \<and>
   totalRequestsProcessed greedyScenario = 0 \<and>
   totalRequestsProcessed (ElevatorSystem_step greedyScenario) = 1 \<and>
   totalRequestsProcessed (snd (addRequest 5 8 (ElevatorSystem_new 10 2))) = 0"
proof -
  have i: "(0::nat) < length (elevators (greedyAfter 6 5 True [5, 8] 0))"
    by (simp add: greedyAfter_def)
  have d: "doorOpen (elevators (greedyAfter 6 5 True [5, 8] 0) ! 0)"
    and k: "totalStopsServed (elevators (greedyAfter 6 5 True [5, 8] 0) ! 0) = 0"
    by (simp_all add: greedyAfter_def)
  have k': "totalStopsServed (elevators (ElevatorSystem_step (greedyAfter 6 5 True [5, 8] 0)) ! 0) = 1"
    by (simp add: greedy_close) (simp add: greedyAfter_def)
  have p: "totalRequestsProcessed greedyScenario = 0"
    by (simp add: greedyScenario_eq)
  have p': "totalRequestsProcessed (ElevatorSystem_step greedyScenario) = 1"
    and q': "pendingRequests (ElevatorSystem_step greedyScenario) = []"
    by (simp_all add: greedy_tick1) (simp_all add: greedyAfter_def)
  have b: "totalRequestsProcessed greedyScenario +
     (int (length (pendingRequests greedyScenario)) -
      int (length (pendingRequests (ElevatorSystem_step greedyScenario)))) \<le> INT_MAX"
    unfolding q' by (simp add: greedyScenario_eq INT_MAX_def)
  have a: "totalRequestsProcessed (snd (addRequest 5 8 (ElevatorSystem_new 10 2))) = 0"
    using counters_monotone_without_overflow [of 5 8 "ElevatorSystem_new 10 2"]
    by (simp add: new_10_2)
  show ?thesis
    using counters_monotone_without_overflow [of 0 0 "greedyAfter 6 5 True [5, 8] 0"]
      counters_monotone_without_overflow [of 0 0 greedyScenario] d k k' p p' b a
    by (simp add: INT_MAX_def)
qed

text \<open>
  At \<open>INT_MAX\<close> the claim fails: the counters are values of \<open>int\<close> and an increment
  cannot make them larger. \<open>overflowCalls\<close> brings \<open>totalRequestsProcessed\<close> of a new system
  to \<open>INT_MAX\<close> in one tick, and the next assignment takes it to \<open>INT_MIN\<close>.
  \<open>stopCalls\<close> brings the \<open>totalStopsServed\<close> of the elevator to \<open>INT_MAX\<close> with its door
  open, and the next tick takes it to \<open>INT_MIN\<close>.
\<close>

theorem counters_overflow_counterexample:
  "totalRequestsProcessed (run overflowCalls (ElevatorSystem_new 10 1)) = 2147483647 \<and>
   totalRequestsProcessed
     (ElevatorSystem_step (snd (addRequest 0 3 (run overflowCalls (ElevatorSystem_new 10 1))))) =
     - 2147483648 \<and>
   totalStopsServed (hd (elevators (run stopCalls (ElevatorSystem_new 10 1)))) = 2147483647 \<and>
   totalStopsServed (hd (elevators (ElevatorSystem_step (run stopCalls (ElevatorSystem_new 10 1)))))
     = - 2147483648"
proof -
  have a: "totalRequestsProcessed (run overflowCalls (ElevatorSystem_new 10 1)) = 2147483647"
    by (simp add: burstDone_reached burstDone_def)
  have b: "totalRequestsProcessed
     (ElevatorSystem_step (snd (addRequest 0 3 (run overflowCalls (ElevatorSystem_new 10 1))))) =
     - 2147483648"
    using burstDone_next unfolding burstDone_reached by (simp add: run_def INT_MIN_def)
  have c: "totalStopsServed (hd (elevators (run stopCalls (ElevatorSystem_new 10 1)))) = 2147483647"
    by (simp add: lastStop_reached lastStop_def)
  have d: "totalStopsServed (hd (elevators (ElevatorSystem_step (run stopCalls (ElevatorSystem_new 10 1)))))
     = - 2147483648"
    using lastStop_next unfolding lastStop_reached by (simp add: INT_MIN_def)
  show ?thesis by (intro conjI a b c d)
qed

subsection \<open>C10: what the dispatch leaves alone\<close>

text \<open>
  Claim C10. \<open>assignRequests\<close> keeps the number of floors, the clock and the size of the
  fleet, and of every elevator the identity, the floor, the direction, the door and the
  stop counter. Every queue after the dispatch is the queue before it with targets added
  at the end, and an elevator that the loop chooses for no request is left exactly as it
  was.
\<close>

theorem assignRequests_frame_fields:
  "numFloors (assignRequests s) = numFloors s \<and>
   currentTime (assignRequests s) = currentTime s \<and>
   length (elevators (assignRequests s)) = length (elevators s) \<and>
   (\<forall>i < length (elevators s).
      ident (elevators (assignRequests s) ! i) = ident (elevators s ! i) \<and>
      currentFloor (elevators (assignRequests s) ! i) = currentFloor (elevators s ! i) \<and>
      direction (elevators (assignRequests s) ! i) = direction (elevators s ! i) \<and>
      doorOpen (elevators (assignRequests s) ! i) = doorOpen (elevators s ! i) \<and>
      totalStopsServed (elevators (assignRequests s) ! i) = totalStopsServed (elevators s ! i) \<and>
      (\<exists>ys. targets (elevators (assignRequests s) ! i) = targets (elevators s ! i) @ ys) \<and>
      (i \<notin> set (chosenIndices (pendingRequests s) (elevators s)) \<longrightarrow>
         elevators (assignRequests s) ! i = elevators s ! i))"
  using assignRequests_sameButTargets[of s] assignRequests_queues[of s]
  by (auto simp: list_all2_conv_all_nth sameButTargets_def)

theorem assignRequests_frame_fields_witness:
  "length (elevators greedyScenario) = 2 \<and>
   chosenIndices (pendingRequests greedyScenario) (elevators greedyScenario) = [0] \<and>
   targets (elevators greedyScenario ! 0) = [] \<and>
   targets (elevators (assignRequests greedyScenario) ! 0) = [] @ [5, 8] \<and>
   currentFloor (elevators (assignRequests greedyScenario) ! 0) =
     currentFloor (elevators greedyScenario ! 0) \<and>
   direction (elevators (assignRequests greedyScenario) ! 0) =
     direction (elevators greedyScenario ! 0) \<and>
   doorOpen (elevators (assignRequests greedyScenario) ! 0) =
     doorOpen (elevators greedyScenario ! 0) \<and>
   totalStopsServed (elevators (assignRequests greedyScenario) ! 0) =
     totalStopsServed (elevators greedyScenario ! 0) \<and>
   (1::nat) \<notin> set (chosenIndices (pendingRequests greedyScenario) (elevators greedyScenario)) \<and>
   elevators (assignRequests greedyScenario) ! 1 = elevators greedyScenario ! 1"
proof -
  have l: "length (elevators greedyScenario) = 2" by (simp add: greedyScenario_eq)
  have c: "chosenIndices (pendingRequests greedyScenario) (elevators greedyScenario) = [0]"
    by (rule chosen_greedyScenario)
  have t0: "targets (elevators greedyScenario ! 0) = []" by (simp add: greedyScenario_eq)
  have t1: "targets (elevators (assignRequests greedyScenario) ! 0) = [] @ [5, 8]"
    by (simp add: assign_greedyScenario)
  have n: "(1::nat) \<notin> set (chosenIndices (pendingRequests greedyScenario) (elevators greedyScenario))"
    using c by simp
  have i0: "(0::nat) < length (elevators greedyScenario)"
    and i1: "(1::nat) < length (elevators greedyScenario)" using l by simp_all
  show ?thesis
    using assignRequests_frame_fields [of greedyScenario] l c t0 t1 n i0 i1 by blast
qed

section \<open>Further properties\<close>

text \<open>
  X1, the collapse of duplicate targets: a second \<open>addTarget\<close> of the same floor changes
  nothing.
\<close>

theorem addTarget_twice: "addTarget f (addTarget f e) = addTarget f e"
  by (simp add: addTarget_def)

text \<open>
  X2, the penalty scenario: elevator 0 travels up at floor 2 with the queue [10] and
  elevator 1 is idle at floor 2. For a request from floor 1 elevator 0 scores 1 + 5 + 1 and
  elevator 1 scores 1, so elevator 1 is chosen.
\<close>

theorem penalty_scenario:
  "elevatorScore fromFloorOne (penaltyFleet ! 0) = 7 \<and>
   elevatorScore fromFloorOne (penaltyFleet ! 1) = 1 \<and>
   findBest fromFloorOne penaltyFleet = 1"
  by (simp add: penaltyFleet_def fromFloorOne_def findBest_def elevatorScore_def goingSameWay_def
      distanceToFloor_def getQueueSize_def INT_MAX_def int32_def)

text \<open>
  X3: in every system a client can reach from a new one, no queue holds the same floor
  twice in a row.
\<close>

theorem run_no_repeated_target:
  "\<forall>e \<in> set (elevators (run cs (ElevatorSystem_new nf ne))). distinct_adj (targets e)"
proof -
  have "list_all noRepeat (elevators (ElevatorSystem_new nf ne))"
    by (simp add: ElevatorSystem_new_def Elevator_new_def list_all_iff noRepeat_def)
  then have "list_all noRepeat (elevators (run cs (ElevatorSystem_new nf ne)))"
    by (rule run_noRepeat)
  then show ?thesis by (simp add: list_all_iff noRepeat_def)
qed

theorem run_no_repeated_target_witness:
  "map targets (elevators (run [CallAddRequest 5 8, CallStep] (ElevatorSystem_new 10 2))) =
     [[5, 8], []] \<and>
   list_all (\<lambda>e. distinct_adj (targets e))
     (elevators (run [CallAddRequest 5 8, CallStep] (ElevatorSystem_new 10 2)))"
proof -
  have r: "run [CallAddRequest 5 8, CallStep] (ElevatorSystem_new 10 2) = greedyAfter 1 1 False [5, 8] 0"
    by (simp add: run_def greedyScenario_def[symmetric] greedy_tick1)
  show ?thesis
    using run_no_repeated_target [of "[CallAddRequest 5 8, CallStep]" 10 2] r
    by (simp add: list_all_iff greedyAfter_def)
qed

text \<open>
  X4: \<open>step\<close> leaves an idle elevator (empty queue, door closed, direction \<open>Idle\<close>) as it
  is.
\<close>

theorem idle_elevator_stays: "isIdle e \<Longrightarrow> Elevator_step e = e"
  by (simp add: isIdle_def Elevator_step_def)

theorem idle_elevator_stays_witness:
  "isIdle (Elevator_new 0 0) \<and> Elevator_step (Elevator_new 0 0) = Elevator_new 0 0"
proof -
  have i: "isIdle (Elevator_new 0 0)" by (simp add: isIdle_def Elevator_new_def)
  show ?thesis using idle_elevator_stays [OF i] i by simp
qed

text \<open>
  X5: a tick increments the clock and keeps the number of floors and the size of the
  fleet.
\<close>

theorem tick_clock:
  "currentTime (ElevatorSystem_step s) = int32 (currentTime s + 1) \<and>
   numFloors (ElevatorSystem_step s) = numFloors s \<and>
   length (elevators (ElevatorSystem_step s)) = length (elevators s)"
  using assignRequests_sameButTargets [of "s\<lparr>currentTime := int32 (currentTime s + 1)\<rparr>"]
  by (auto simp: ElevatorSystem_step_def Let_def dest: list_all2_lengthD)

text \<open>
  X6: when some elevator has room below \<open>INT_MAX\<close> for the backlog, the dispatch leaves
  no request pending, and every request has been pushed, pickup floor before destination,
  on the elevator chosen for it.
\<close>

theorem room_clears_backlog:
  "(\<exists>e \<in> set (elevators s). scoreRoom (pendingRequests s) e) \<longrightarrow>
      pendingRequests (assignRequests s) = [] \<and>
      elevators (assignRequests s) = fold pushRequest (pendingRequests s) (elevators s)"
proof
  assume "\<exists>e \<in> set (elevators s). scoreRoom (pendingRequests s) e"
  then obtain k where k: "k < length (elevators s)"
    and room: "scoreRoom (pendingRequests s) (elevators s ! k)"
    by (auto simp: in_set_conv_nth)
  obtain p' where f:
    "fold assignOne (pendingRequests s) (elevators s, totalRequestsProcessed s, []) =
      (fold pushRequest (pendingRequests s) (elevators s), p', [])"
    using room fold_assignOne_room[OF k, of "pendingRequests s" "totalRequestsProcessed s" "[]"]
    by (auto simp: scoreRoom_def list_all_iff)
  show "pendingRequests (assignRequests s) = [] \<and>
      elevators (assignRequests s) = fold pushRequest (pendingRequests s) (elevators s)"
    using f by (simp add: assignRequests_def)
qed

theorem room_clears_backlog_witness:
  "hd (elevators greedyScenario) \<in> set (elevators greedyScenario) \<and>
   scoreRoom (pendingRequests greedyScenario) (hd (elevators greedyScenario)) \<and>
   pendingRequests greedyScenario = [\<lparr>fromFloor = 5, toFloor = 8, timeRequested = 0\<rparr>] \<and>
   pendingRequests (assignRequests greedyScenario) = [] \<and>
   map targets (fold pushRequest (pendingRequests greedyScenario) (elevators greedyScenario)) =
     [[5, 8], []]"
proof -
  have m: "hd (elevators greedyScenario) \<in> set (elevators greedyScenario)"
    by (simp add: greedyScenario_eq)
  have room: "scoreRoom (pendingRequests greedyScenario) (hd (elevators greedyScenario))"
    by (simp add: greedyScenario_eq scoreRoom_def distanceToFloor_def INT_MAX_def)
  have ex: "\<exists>e \<in> set (elevators greedyScenario). scoreRoom (pendingRequests greedyScenario) e"
    using m room by blast
  have a: "pendingRequests (assignRequests greedyScenario) = []"
    and c: "elevators (assignRequests greedyScenario) =
        fold pushRequest (pendingRequests greedyScenario) (elevators greedyScenario)"
    using room_clears_backlog [of greedyScenario] ex by simp_all
  have c': "map targets (fold pushRequest (pendingRequests greedyScenario) (elevators greedyScenario))
      = [[5, 8], []]"
    using c[symmetric] by (simp add: assign_greedyScenario)
  show ?thesis using m room a c' by (simp add: greedyScenario_eq)
qed

text \<open>
  X7: the loop leaves a request pending exactly when every elevator of the fleet scores
  \<open>INT_MAX\<close> for it; an empty fleet is the case of no elevator at all.
\<close>

theorem pending_iff_all_at_INT_MAX:
  "(findBest req elevs = - 1) = (\<forall>e \<in> set elevs. elevatorScore req e = INT_MAX)"
proof
  assume none: "findBest req elevs = - 1"
  show "\<forall>e \<in> set elevs. elevatorScore req e = INT_MAX"
  proof (rule ccontr)
    assume "\<not> (\<forall>e \<in> set elevs. elevatorScore req e = INT_MAX)"
    then obtain e where e: "e \<in> set elevs" and ne: "elevatorScore req e \<noteq> INT_MAX" by blast
    have "elevatorScore req e \<le> INT_MAX"
      by (simp add: elevatorScore_def Let_def int32_le)
    then have "elevatorScore req e < INT_MAX" using ne by simp
    then have "\<exists>x \<in> set elevs. elevatorScore req x < INT_MAX" using e by blast
    then have "0 \<le> findBest req elevs" using findBest_some by blast
    then show False using none by simp
  qed
next
  assume "\<forall>e \<in> set elevs. elevatorScore req e = INT_MAX"
  then have "\<forall>e \<in> set elevs. INT_MAX \<le> elevatorScore req e" by simp
  then show "findBest req elevs = - 1" by (rule findBest_none)
qed

theorem pending_iff_all_at_INT_MAX_witness:
  "findBest pickupAtOne [loadedElevator] = - 1 \<and>
   loadedElevator \<in> set [loadedElevator] \<and>
   elevatorScore pickupAtOne loadedElevator = INT_MAX \<and>
   findBest fromFloorOne penaltyFleet \<noteq> - 1 \<and>
   penaltyFleet ! 1 \<in> set penaltyFleet \<and>
   elevatorScore fromFloorOne (penaltyFleet ! 1) \<noteq> INT_MAX"
proof -
  have m: "loadedElevator \<in> set [loadedElevator]" by simp
  have s: "elevatorScore pickupAtOne loadedElevator = INT_MAX"
    using pending_iff_all_at_INT_MAX [of pickupAtOne "[loadedElevator]"] loadedElevator_not_found
    by simp
  have n: "findBest pickupAtOne [loadedElevator] = - 1"
    using pending_iff_all_at_INT_MAX [of pickupAtOne "[loadedElevator]"] s by simp
  have m': "penaltyFleet ! 1 \<in> set penaltyFleet" by (simp add: penaltyFleet_def)
  have s': "elevatorScore fromFloorOne (penaltyFleet ! 1) \<noteq> INT_MAX"
    by (simp add: penaltyFleet_def fromFloorOne_def elevatorScore_def goingSameWay_def
        distanceToFloor_def getQueueSize_def INT_MAX_def int32_def)
  have n': "findBest fromFloorOne penaltyFleet \<noteq> - 1"
    using pending_iff_all_at_INT_MAX [of fromFloorOne penaltyFleet] m' s' by blast
  show ?thesis by (intro conjI n m s n' m' s')
qed

end
